theory Spec2Isabelle
  imports Main "HOL-Library.AList" "HOL-Library.Sublist"
begin

section \<open>The file system the program works on\<close>

text \<open>
  The program (\<^verbatim>\<open>src/main.py\<close>) only talks to the file system, to the \<^verbatim>\<open>zipfile\<close>
  and \<^verbatim>\<open>shutil\<close> modules and to three widgets. The file system is a tree: a directory
  is the list of its entries in the order \<^verbatim>\<open>os.listdir\<close> returns them (an entry that is
  created is listed last, an entry that is overwritten keeps its place), a regular file
  is \<open>Plain\<close> (bytes that \<^verbatim>\<open>zipfile.ZipFile\<close> cannot open), \<open>Zip\<close> (a sound zip archive,
  given by the tree of its members in archive order) or \<open>Damaged\<close> (a zip archive that
  opens but has a damaged member: the tree of the members before the first such member,
  the path of that member in the archive, and its defect). Symbolic links, permissions
  and time stamps are not part of the model. A path is the list of its components below
  the root of the tree, so \<^verbatim>\<open>os.path.join(p, item)\<close> is \<open>p @ [item]\<close>.
\<close>

type_synonym path = "string list"

text \<open>
  What can be wrong with a member: its local header does not fit the directory of the
  archive, its data do not have the check sum of the directory (with the bytes that are
  written before the end of the data shows it), or it is encrypted.
\<close>

datatype defect = BadHeader | BadCRC string | Encrypted

datatype node =
    Plain string
  | Zip "(string \<times> node) list"
  | Damaged "(string \<times> node) list" path defect
  | Dir "(string \<times> node) list"

datatype error =
    FileNotFoundError path
  | BadZipFile
  | ShutilError
  | RuntimeError
  | OtherOSError

fun lookup :: "node \<Rightarrow> path \<Rightarrow> node option" where
  "lookup n [] = Some n"
| "lookup (Dir es) (x # p) = (case map_of es x of None \<Rightarrow> None | Some c \<Rightarrow> lookup c p)"
| "lookup (Plain b) (x # p) = None"
| "lookup (Zip zs) (x # p) = None"
| "lookup (Damaged zs m df) (x # p) = None"

definition exists_path :: "node \<Rightarrow> path \<Rightarrow> bool" where
  "exists_path fs p = (lookup fs p \<noteq> None)"

definition isdir :: "node \<Rightarrow> path \<Rightarrow> bool" where
  "isdir fs p = (case lookup fs p of Some (Dir es) \<Rightarrow> True | _ \<Rightarrow> False)"

definition isfile :: "node \<Rightarrow> path \<Rightarrow> bool" where
  "isfile fs p =
     (case lookup fs p of
        Some (Plain b) \<Rightarrow> True
      | Some (Zip zs) \<Rightarrow> True
      | Some (Damaged zs m df) \<Rightarrow> True
      | _ \<Rightarrow> False)"

text \<open>\<^verbatim>\<open>os.listdir\<close>: the names of a directory, an error for anything else.\<close>

definition listdir :: "node \<Rightarrow> path \<Rightarrow> error + string list" where
  "listdir fs p =
     (case lookup fs p of
        Some (Dir es) \<Rightarrow> Inr (map fst es)
      | Some (Plain b) \<Rightarrow> Inl OtherOSError
      | Some (Zip zs) \<Rightarrow> Inl OtherOSError
      | Some (Damaged zs m df) \<Rightarrow> Inl OtherOSError
      | None \<Rightarrow> Inl (FileNotFoundError p))"

text \<open>
  \<open>put_node p v fs\<close> puts the node \<open>v\<close> at the path \<open>p\<close>, whose parent has to be a
  directory (the callers check it); anything else leaves the tree as it is.
\<close>

fun put_node :: "path \<Rightarrow> node \<Rightarrow> node \<Rightarrow> node" where
  "put_node [] v n = v"
| "put_node (x # p) v (Dir es) =
     (if p = [] then Dir (AList.update x v es)
      else (case map_of es x of
              None \<Rightarrow> Dir es
            | Some c \<Rightarrow> Dir (AList.update x (put_node p v c) es)))"
| "put_node (x # p) v (Plain b) = Plain b"
| "put_node (x # p) v (Zip zs) = Zip zs"
| "put_node (x # p) v (Damaged zs m df) = Damaged zs m df"

text \<open>
  \<^verbatim>\<open>os.makedirs(p, exist_ok=True)\<close>: every missing directory on the way is created; a
  regular file on the way is an error, and then nothing has been created.
\<close>

fun makedirs :: "path \<Rightarrow> node \<Rightarrow> error + node" where
  "makedirs [] (Dir es) = Inr (Dir es)"
| "makedirs [] (Plain b) = Inl OtherOSError"
| "makedirs [] (Zip zs) = Inl OtherOSError"
| "makedirs [] (Damaged zs m df) = Inl OtherOSError"
| "makedirs (x # p) (Dir es) =
     (case map_of es x of
        None \<Rightarrow> (case makedirs p (Dir []) of
                   Inl e \<Rightarrow> Inl e
                 | Inr c \<Rightarrow> Inr (Dir (es @ [(x, c)])))
      | Some c \<Rightarrow> (case makedirs p c of
                     Inl e \<Rightarrow> Inl e
                   | Inr c' \<Rightarrow> Inr (Dir (AList.update x c' es))))"
| "makedirs (x # p) (Plain b) = Inl OtherOSError"
| "makedirs (x # p) (Zip zs) = Inl OtherOSError"
| "makedirs (x # p) (Damaged zs m df) = Inl OtherOSError"

text \<open>The guarded call \<^verbatim>\<open>if not os.path.exists(p): os.makedirs(p)\<close> of the source.\<close>

definition ensure_dir :: "path \<Rightarrow> node \<Rightarrow> error + node" where
  "ensure_dir p fs = (if exists_path fs p then Inr fs else makedirs p fs)"

subsection \<open>Strings\<close>

definition endswith :: "string \<Rightarrow> string \<Rightarrow> bool" where
  "endswith s suf = (length suf \<le> length s \<and> drop (length s - length suf) s = suf)"

text \<open>\<^verbatim>\<open>str.rfind\<close> of one character: the last index, or \<open>-1\<close>.\<close>

fun rfind :: "char \<Rightarrow> string \<Rightarrow> int" where
  "rfind c [] = -1"
| "rfind c (x # xs) =
     (let r = rfind c xs in
      if 0 \<le> r then r + 1 else if x = c then 0 else -1)"

text \<open>
  \<^verbatim>\<open>os.path.splitext(p)[0]\<close> (\<^verbatim>\<open>genericpath._splitext\<close> with the separator \<^verbatim>\<open>/\<close>): the
  extension starts at the last dot after the last separator, unless only dots come
  before it in the file name.
\<close>

definition splitext_root :: "string \<Rightarrow> string" where
  "splitext_root p =
     (let sepIndex = rfind CHR ''/'' p; dotIndex = rfind CHR ''.'' p in
      if dotIndex > sepIndex
         \<and> dropWhile (\<lambda>c. c = CHR ''.'') (drop (nat (sepIndex + 1)) (take (nat dotIndex) p)) \<noteq> []
      then take (nat dotIndex) p else p)"

subsection \<open>What \<^verbatim>\<open>zipfile\<close> and \<^verbatim>\<open>shutil\<close> do to the tree\<close>

text \<open>
  \<^verbatim>\<open>ZipFile.extractall(target)\<close> writes the members one after the other and stops at the
  first error, leaving what it has written. For the members that are sound: a directory
  member is created unless a directory is there (a regular file there is an error), a
  file member overwrites a regular file or is created (a directory there is an error).
  \<open>merge_members\<close> is this on the listing of the target directory.
\<close>

fun merge_member :: "string \<times> node \<Rightarrow> (string \<times> node) list \<Rightarrow> (string \<times> node) list \<times> error option"
  and merge_members :: "(string \<times> node) list \<Rightarrow> (string \<times> node) list \<Rightarrow> (string \<times> node) list \<times> error option"
where
  "merge_member (n, Dir cs) d =
     (case map_of d n of
        None \<Rightarrow> (case merge_members cs [] of (d', e) \<Rightarrow> (d @ [(n, Dir d')], e))
      | Some (Dir old) \<Rightarrow> (case merge_members cs old of (d', e) \<Rightarrow> (AList.update n (Dir d') d, e))
      | Some (Plain b) \<Rightarrow> (d, Some OtherOSError)
      | Some (Zip zs) \<Rightarrow> (d, Some OtherOSError)
      | Some (Damaged zs m df) \<Rightarrow> (d, Some OtherOSError))"
| "merge_member (n, Plain b) d =
     (case map_of d n of
        Some (Dir old) \<Rightarrow> (d, Some OtherOSError)
      | _ \<Rightarrow> (AList.update n (Plain b) d, None))"
| "merge_member (n, Zip zs) d =
     (case map_of d n of
        Some (Dir old) \<Rightarrow> (d, Some OtherOSError)
      | _ \<Rightarrow> (AList.update n (Zip zs) d, None))"
| "merge_member (n, Damaged zs m df) d =
     (case map_of d n of
        Some (Dir old) \<Rightarrow> (d, Some OtherOSError)
      | _ \<Rightarrow> (AList.update n (Damaged zs m df) d, None))"
| "merge_members [] d = (d, None)"
| "merge_members (m # ms) d =
     (case merge_member m d of
        (d', Some e) \<Rightarrow> (d', Some e)
      | (d', None) \<Rightarrow> merge_members ms d')"

text \<open>
  The damaged member, met after the members before it are written: the directories above
  it are created if they are missing, then the member is opened. A bad header and an
  encrypted member fail there, before the target file is opened; a bad check sum shows
  at the end of the data, when the target file has been opened for writing and holds the
  bytes read so far.
\<close>

definition extract_damaged :: "path \<Rightarrow> path \<Rightarrow> defect \<Rightarrow> node \<Rightarrow> node \<times> error option" where
  "extract_damaged target m df fs =
     (let upperdirs = target @ butlast m; targetpath = target @ m in
      case ensure_dir upperdirs fs of
        Inl e \<Rightarrow> (fs, Some e)
      | Inr fs1 \<Rightarrow>
          (case df of
             BadHeader \<Rightarrow> (fs1, Some BadZipFile)
           | Encrypted \<Rightarrow> (fs1, Some RuntimeError)
           | BadCRC written \<Rightarrow>
               if m = [] \<or> isdir fs1 targetpath \<or> \<not> isdir fs1 upperdirs then (fs1, Some OtherOSError)
               else (put_node targetpath (Plain written) fs1, Some BadZipFile)))"

text \<open>The members before the damage, on a target that has to be a directory.\<close>

definition extract_members :: "path \<Rightarrow> (string \<times> node) list \<Rightarrow> node \<Rightarrow> node \<times> error option" where
  "extract_members target members fs =
     (case lookup fs target of
        Some (Dir d) \<Rightarrow> (case merge_members members d of (d', e) \<Rightarrow> (put_node target (Dir d') fs, e))
      | _ \<Rightarrow> (fs, if members = [] then None else Some OtherOSError))"

text \<open>
  \<^verbatim>\<open>zip_ref.extractall(target)\<close>: the members of the archive, then its damaged member if
  it has one.
\<close>

definition extractall ::
  "path \<Rightarrow> (string \<times> node) list \<Rightarrow> (path \<times> defect) option \<Rightarrow> node \<Rightarrow> node \<times> error option" where
  "extractall target members damage fs =
     (case extract_members target members fs of
        (fs1, Some e) \<Rightarrow> (fs1, Some e)
      | (fs1, None) \<Rightarrow>
          (case damage of
             None \<Rightarrow> (fs1, None)
           | Some (m, df) \<Rightarrow> extract_damaged target m df fs1))"

text \<open>
  \<^verbatim>\<open>shutil.copyfile\<close>: the same file twice is \<^verbatim>\<open>SameFileError\<close> (a \<^verbatim>\<open>shutil.Error\<close>), a
  directory on either side is an error, the destination is overwritten or created.
\<close>

definition copyfile :: "path \<Rightarrow> path \<Rightarrow> node \<Rightarrow> error + node" where
  "copyfile src dst fs =
     (if src = dst \<and> exists_path fs src then Inl ShutilError
      else (case lookup fs src of
              None \<Rightarrow> Inl (FileNotFoundError src)
            | Some (Dir es) \<Rightarrow> Inl OtherOSError
            | Some c \<Rightarrow>
                if isdir fs dst then Inl OtherOSError
                else if dst = [] \<or> \<not> exists_path fs (butlast dst) then Inl (FileNotFoundError dst)
                else if \<not> isdir fs (butlast dst) then Inl OtherOSError
                else Inr (put_node dst c fs)))"

text \<open>
  \<^verbatim>\<open>shutil.copy\<close> and \<^verbatim>\<open>shutil.copy2\<close> (they differ in the metadata only): a destination
  that is a directory stands for the file of the same name in it.
\<close>

definition shutil_copy :: "path \<Rightarrow> path \<Rightarrow> node \<Rightarrow> error + node" where
  "shutil_copy src dst fs =
     copyfile src (if isdir fs dst then dst @ (if src = [] then [] else [last src]) else dst) fs"

text \<open>
  \<^verbatim>\<open>shutil.copytree(src, dst, dirs_exist_ok=True)\<close>: the entries of \<open>src\<close> are read
  first, then \<open>dst\<close> is created, then each entry is copied; the errors of the entries are
  collected and raised as one \<^verbatim>\<open>shutil.Error\<close> at the end. The destination may lie inside
  the source, so the recursion reads the tree as it is when it gets there; the first
  argument bounds the depth of the recursion, and \<open>None\<close> says that the bound was reached.
\<close>

fun copytree :: "nat \<Rightarrow> path \<Rightarrow> path \<Rightarrow> node \<Rightarrow> (node \<times> error option) option"
  and copy_entries :: "nat \<Rightarrow> path \<Rightarrow> path \<Rightarrow> string list \<Rightarrow> bool \<Rightarrow> node \<Rightarrow> (node \<times> error option) option"
where
  "copytree 0 src dst fs = None"
| "copytree (Suc k) src dst fs =
     (case listdir fs src of
        Inl e \<Rightarrow> Some (fs, Some e)
      | Inr names \<Rightarrow>
          (case makedirs dst fs of
             Inl e \<Rightarrow> Some (fs, Some e)
           | Inr fs1 \<Rightarrow> copy_entries k src dst names False fs1))"
| "copy_entries k src dst [] errors fs = Some (fs, if errors then Some ShutilError else None)"
| "copy_entries k src dst (n # ns) errors fs =
     (if isdir fs (src @ [n]) then
        (case copytree k (src @ [n]) (dst @ [n]) fs of
           None \<Rightarrow> None
         | Some (fs', e) \<Rightarrow> copy_entries k src dst ns (errors \<or> e \<noteq> None) fs')
      else
        (case shutil_copy (src @ [n]) (dst @ [n]) fs of
           Inl e \<Rightarrow> copy_entries k src dst ns True fs
         | Inr fs' \<Rightarrow> copy_entries k src dst ns errors fs'))"

text \<open>
  \<^verbatim>\<open>os.walk(top)\<close>, top down: a directory, then its subdirectories in listing order; what
  is no directory yields nothing. Each triple is the directory, the names of its
  subdirectories and the names of its other entries.
\<close>

fun walk :: "path \<Rightarrow> node \<Rightarrow> (path \<times> string list \<times> string list) list"
  and walk_entries :: "path \<Rightarrow> (string \<times> node) list \<Rightarrow> (path \<times> string list \<times> string list) list"
where
  "walk dirpath (Dir es) =
     (dirpath, map fst (filter (\<lambda>(n, c). case c of Dir cs \<Rightarrow> True | _ \<Rightarrow> False) es),
               map fst (filter (\<lambda>(n, c). case c of Dir cs \<Rightarrow> False | _ \<Rightarrow> True) es))
     # walk_entries dirpath es"
| "walk dirpath (Plain b) = []"
| "walk dirpath (Zip zs) = []"
| "walk dirpath (Damaged zs m df) = []"
| "walk_entries dirpath [] = []"
| "walk_entries dirpath ((n, c) # es) = walk (dirpath @ [n]) c @ walk_entries dirpath es"

definition os_walk :: "node \<Rightarrow> path \<Rightarrow> (path \<times> string list \<times> string list) list" where
  "os_walk fs dirpath = (case lookup fs dirpath of None \<Rightarrow> [] | Some n \<Rightarrow> walk dirpath n)"

text \<open>The names in a directory that are no directories, as the walk reads them there.\<close>

definition nondirs :: "node \<Rightarrow> path \<Rightarrow> string list" where
  "nondirs fs dirpath =
     (case lookup fs dirpath of
        Some (Dir es) \<Rightarrow> map fst (filter (\<lambda>(n, c). case c of Dir cs \<Rightarrow> False | _ \<Rightarrow> True) es)
      | _ \<Rightarrow> [])"

section \<open>The program\<close>

text \<open>
  The widgets are the rest of the state: the lines of the log (one constructor for each
  message of the source, with the paths it prints), the value and the maximum of the
  progress bar, and the message boxes shown so far.
\<close>

datatype event =
    CopiedFolder path path
  | CopiedZipFile path path
  | ErrorWhileCopying path path error
  | SuccessfullyExtracted path path
  | FileNotFoundSkipping path
  | BadZipSkipping path
  | UnexpectedErrorSkipping error path
  | CopiedCSV path path
  | CopiedPDF path path
  | ErrorWhileCopyingSkipping path error
  | ProcessCompleted

datatype dialog = NoFolderSelected | ProcessComplete

record state =
  disk :: node
  log :: "event list"
  progress :: nat
  maximum :: nat
  dialogs :: "dialog list"

definition log_message :: "event \<Rightarrow> state \<Rightarrow> state" where
  "log_message m s = s\<lparr>log := log s @ [m]\<rparr>"

definition update_progress :: "state \<Rightarrow> state" where
  "update_progress s = s\<lparr>progress := progress s + 1\<rparr>"

subsection \<open>Staging: \<^verbatim>\<open>copy_to_extracted_folder\<close>\<close>

text \<open>
  The body of the loop with its handler. \<^verbatim>\<open>full_path.endswith('.zip')\<close> is decided by
  the item, since the separator before it is no character of the suffix.
\<close>

definition stage_item :: "nat \<Rightarrow> path \<Rightarrow> path \<Rightarrow> string \<Rightarrow> state \<Rightarrow> state option" where
  "stage_item fuel source_folder extraction_base_path item s =
     (let full_path = source_folder @ [item];
          destination_path = extraction_base_path @ [item] in
      if isdir (disk s) full_path then
        (case copytree fuel full_path destination_path (disk s) of
           None \<Rightarrow> None
         | Some (fs', None) \<Rightarrow>
             Some (update_progress (log_message (CopiedFolder full_path destination_path) (s\<lparr>disk := fs'\<rparr>)))
         | Some (fs', Some e) \<Rightarrow>
             Some (log_message (ErrorWhileCopying full_path destination_path e) (s\<lparr>disk := fs'\<rparr>)))
      else if isfile (disk s) full_path \<and> endswith item ''.zip'' then
        (case shutil_copy full_path destination_path (disk s) of
           Inr fs' \<Rightarrow>
             Some (update_progress (log_message (CopiedZipFile full_path destination_path) (s\<lparr>disk := fs'\<rparr>)))
         | Inl e \<Rightarrow>
             Some (log_message (ErrorWhileCopying full_path destination_path e) s))
      else Some s)"

fun stage_items :: "nat \<Rightarrow> path \<Rightarrow> path \<Rightarrow> string list \<Rightarrow> state \<Rightarrow> state option" where
  "stage_items fuel source_folder extraction_base_path [] s = Some s"
| "stage_items fuel source_folder extraction_base_path (item # items) s =
     (case stage_item fuel source_folder extraction_base_path item s of
        None \<Rightarrow> None
      | Some s' \<Rightarrow> stage_items fuel source_folder extraction_base_path items s')"

text \<open>
  The result of a procedure is \<open>None\<close> when the fuel ran out, \<open>Some (Inl e)\<close> when the
  exception \<open>e\<close> left it, and \<open>Some (Inr s)\<close> when it returned in the state \<open>s\<close>.
\<close>

definition copy_to_extracted_folder :: "nat \<Rightarrow> path \<Rightarrow> path \<Rightarrow> state \<Rightarrow> (error + state) option" where
  "copy_to_extracted_folder fuel source_folder extraction_base_path s =
     (case ensure_dir extraction_base_path (disk s) of
        Inl e \<Rightarrow> Some (Inl e)
      | Inr fs1 \<Rightarrow>
          (case listdir fs1 source_folder of
             Inl e \<Rightarrow> Some (Inl e)
           | Inr items \<Rightarrow>
               map_option Inr (stage_items fuel source_folder extraction_base_path items (s\<lparr>disk := fs1\<rparr>))))"

subsection \<open>Unpacking: \<^verbatim>\<open>find_and_extract_zip_files\<close>\<close>

text \<open>
  \<^verbatim>\<open>zipfile.ZipFile(full_path, 'r')\<close>: the members of an archive and its damage, if it has
  any; \<^verbatim>\<open>BadZipFile\<close> for a file that is no archive.
\<close>

definition open_zip :: "node \<Rightarrow> path \<Rightarrow> error + (string \<times> node) list \<times> (path \<times> defect) option" where
  "open_zip fs full_path =
     (case lookup fs full_path of
        None \<Rightarrow> Inl (FileNotFoundError full_path)
      | Some (Dir es) \<Rightarrow> Inl OtherOSError
      | Some (Plain b) \<Rightarrow> Inl BadZipFile
      | Some (Zip members) \<Rightarrow> Inr (members, None)
      | Some (Damaged members m df) \<Rightarrow> Inr (members, Some (m, df)))"

text \<open>The three handlers of the loop body.\<close>

definition unpack_handler :: "error \<Rightarrow> path \<Rightarrow> state \<Rightarrow> state" where
  "unpack_handler e full_path s =
     (case e of
        FileNotFoundError filename \<Rightarrow> log_message (FileNotFoundSkipping filename) s
      | BadZipFile \<Rightarrow> log_message (BadZipSkipping full_path) s
      | _ \<Rightarrow> log_message (UnexpectedErrorSkipping e full_path) s)"

text \<open>
  The body of the \<^verbatim>\<open>for\<close> loop on the stack and the state. The stack is a list whose
  head is the top: \<^verbatim>\<open>append\<close> is \<open>#\<close> and \<^verbatim>\<open>pop\<close> takes the head.
\<close>

definition process_item :: "path \<Rightarrow> string \<Rightarrow> path list \<times> state \<Rightarrow> path list \<times> state" where
  "process_item current_path item = (\<lambda>(stack, s).
     (let full_path = current_path @ [item] in
      if isfile (disk s) full_path \<and> endswith item ''.zip'' then
        (let extract_to_folder = current_path @ [splitext_root item] in
         case ensure_dir extract_to_folder (disk s) of
           Inl e \<Rightarrow> (stack, unpack_handler e full_path s)
         | Inr fs1 \<Rightarrow>
           (case open_zip fs1 full_path of
              Inl e \<Rightarrow> (stack, unpack_handler e full_path (s\<lparr>disk := fs1\<rparr>))
            | Inr (members, damage) \<Rightarrow>
                (case extractall extract_to_folder members damage fs1 of
                   (fs2, Some e) \<Rightarrow> (stack, unpack_handler e full_path (s\<lparr>disk := fs2\<rparr>))
                 | (fs2, None) \<Rightarrow>
                     (extract_to_folder # stack,
                      update_progress (log_message (SuccessfullyExtracted full_path extract_to_folder)
                        (s\<lparr>disk := fs2\<rparr>))))))
      else if isdir (disk s) full_path then (full_path # stack, s)
      else (stack, s)))"

text \<open>One round of the \<^verbatim>\<open>while\<close> loop: \<^verbatim>\<open>os.listdir\<close> stands outside the \<^verbatim>\<open>try\<close>.\<close>

definition unpack_round :: "path list \<times> state \<Rightarrow> error + path list \<times> state" where
  "unpack_round = (\<lambda>(stack, s).
     (case listdir (disk s) (hd stack) of
        Inl e \<Rightarrow> Inl e
      | Inr items \<Rightarrow> Inr (fold (process_item (hd stack)) items (tl stack, s))))"

fun unpack_loop :: "nat \<Rightarrow> path list \<times> state \<Rightarrow> (error + state) option" where
  "unpack_loop fuel ([], s) = Some (Inr s)"
| "unpack_loop 0 (current_path # stack, s) = None"
| "unpack_loop (Suc fuel) (current_path # stack, s) =
     (case unpack_round (current_path # stack, s) of
        Inl e \<Rightarrow> Some (Inl e)
      | Inr st \<Rightarrow> unpack_loop fuel st)"

definition find_and_extract_zip_files :: "nat \<Rightarrow> path \<Rightarrow> state \<Rightarrow> (error + state) option" where
  "find_and_extract_zip_files fuel extraction_base_path s = unpack_loop fuel ([extraction_base_path], s)"


subsection \<open>Sorting: \<^verbatim>\<open>organize_files_by_extension\<close>\<close>

definition sort_handler :: "error \<Rightarrow> path \<Rightarrow> state \<Rightarrow> state" where
  "sort_handler e file_path s =
     (case e of
        FileNotFoundError filename \<Rightarrow> log_message (FileNotFoundSkipping filename) s
      | ShutilError \<Rightarrow> log_message (ErrorWhileCopyingSkipping file_path e) s
      | _ \<Rightarrow> log_message (UnexpectedErrorSkipping e file_path) s)"

definition sort_file :: "path \<Rightarrow> path \<Rightarrow> path \<Rightarrow> string \<Rightarrow> state \<Rightarrow> state" where
  "sort_file csv_folder pdf_folder root file_name s =
     (let file_path = root @ [file_name] in
      if endswith file_name ''.csv'' then
        (case shutil_copy file_path csv_folder (disk s) of
           Inl e \<Rightarrow> sort_handler e file_path s
         | Inr fs' \<Rightarrow> update_progress (log_message (CopiedCSV file_path csv_folder) (s\<lparr>disk := fs'\<rparr>)))
      else if endswith file_name ''.pdf'' then
        (case shutil_copy file_path pdf_folder (disk s) of
           Inl e \<Rightarrow> sort_handler e file_path s
         | Inr fs' \<Rightarrow> update_progress (log_message (CopiedPDF file_path pdf_folder) (s\<lparr>disk := fs'\<rparr>)))
      else s)"

text \<open>
  The copies create no directory, so the directories of the walk are those of its
  start; the files of a directory are read when the walk gets to it.
\<close>

definition sort_directory :: "path \<Rightarrow> path \<Rightarrow> path \<Rightarrow> state \<Rightarrow> state" where
  "sort_directory csv_folder pdf_folder root s =
     fold (sort_file csv_folder pdf_folder root) (nondirs (disk s) root) s"

definition organize_files_by_extension :: "path \<Rightarrow> path \<Rightarrow> state \<Rightarrow> error + state" where
  "organize_files_by_extension extraction_base_path merged_path s =
     (let csv_folder = merged_path @ [''All_CSVs''];
          pdf_folder = merged_path @ [''All_PDFs''] in
      case ensure_dir csv_folder (disk s) of
        Inl e \<Rightarrow> Inl e
      | Inr fs1 \<Rightarrow>
          (case ensure_dir pdf_folder fs1 of
             Inl e \<Rightarrow> Inl e
           | Inr fs2 \<Rightarrow>
               Inr (fold (sort_directory csv_folder pdf_folder)
                      (map fst (os_walk fs2 extraction_base_path)) (s\<lparr>disk := fs2\<rparr>))))"

subsection \<open>The progress bar and the whole run\<close>

definition calculate_total_tasks :: "node \<Rightarrow> path \<Rightarrow> nat" where
  "calculate_total_tasks fs extraction_base_path =
     length (filter (\<lambda>file_name. endswith file_name ''.zip'' \<or> endswith file_name ''.csv''
                                  \<or> endswith file_name ''.pdf'')
               (concat (map (\<lambda>(root, dirs, files). files) (os_walk fs extraction_base_path))))"

text \<open>
  \<^verbatim>\<open>select_folder_and_process\<close>: the answer of the folder dialog is \<open>None\<close> when nothing
  was selected, and the path of the selected folder otherwise.
\<close>

definition select_folder_and_process :: "nat \<Rightarrow> path option \<Rightarrow> state \<Rightarrow> (error + state) option" where
  "select_folder_and_process fuel answer s =
     (case answer of
        None \<Rightarrow> Some (Inr (s\<lparr>dialogs := dialogs s @ [NoFolderSelected]\<rparr>))
      | Some folder_path \<Rightarrow>
          (let extraction_base_path = folder_path @ [''Extracted''];
               merged_path = folder_path @ [''Merged''] in
           case ensure_dir merged_path (disk s) of
             Inl e \<Rightarrow> Some (Inl e)
           | Inr fs1 \<Rightarrow>
               (case copy_to_extracted_folder fuel folder_path extraction_base_path (s\<lparr>disk := fs1\<rparr>) of
                  None \<Rightarrow> None
                | Some (Inl e) \<Rightarrow> Some (Inl e)
                | Some (Inr s2) \<Rightarrow>
                    (case find_and_extract_zip_files fuel extraction_base_path
                            (s2\<lparr>maximum := calculate_total_tasks (disk s2) extraction_base_path\<rparr>) of
                       None \<Rightarrow> None
                     | Some (Inl e) \<Rightarrow> Some (Inl e)
                     | Some (Inr s3) \<Rightarrow>
                         (case organize_files_by_extension extraction_base_path merged_path s3 of
                            Inl e \<Rightarrow> Some (Inl e)
                          | Inr s4 \<Rightarrow>
                              Some (Inr (log_message ProcessCompleted
                                           (s4\<lparr>dialogs := dialogs s4 @ [ProcessComplete]\<rparr>))))))))"

text \<open>The state of the widgets when the window opens, on the tree \<open>t\<close>.\<close>

definition initial :: "node \<Rightarrow> state" where
  "initial t = \<lparr>disk = t, log = [], progress = 0, maximum = 0, dialogs = []\<rparr>"

section \<open>What the properties are stated with\<close>

text \<open>What a run that returned left behind: a node of the tree, the log, the message boxes.\<close>

definition outcome_lookup :: "(error + state) option \<Rightarrow> path \<Rightarrow> node option option" where
  "outcome_lookup r p = (case r of Some (Inr s) \<Rightarrow> Some (lookup (disk s) p) | _ \<Rightarrow> None)"

definition outcome_log :: "(error + state) option \<Rightarrow> event list option" where
  "outcome_log r = (case r of Some (Inr s) \<Rightarrow> Some (log s) | _ \<Rightarrow> None)"

definition outcome_dialogs :: "(error + state) option \<Rightarrow> dialog list option" where
  "outcome_dialogs r = (case r of Some (Inr s) \<Rightarrow> Some (dialogs s) | _ \<Rightarrow> None)"

text \<open>The state after \<open>k\<close> rounds of the loop of the unpacker, when it gets that far.\<close>

fun unpack_rounds :: "nat \<Rightarrow> path list \<times> state \<Rightarrow> (path list \<times> state) option" where
  "unpack_rounds 0 st = Some st"
| "unpack_rounds (Suc k) ([], s) = None"
| "unpack_rounds (Suc k) (current_path # stack, s) =
     (case unpack_round (current_path # stack, s) of
        Inl e \<Rightarrow> None
      | Inr st \<Rightarrow> unpack_rounds k st)"

text \<open>
  Archives nested \<open>n\<close> deep: the listing of a directory that holds \<^verbatim>\<open>a.zip\<close>, which holds
  \<^verbatim>\<open>a.zip\<close>, and so on, with one file in the innermost one; the tree once all of them
  are unpacked; and the lines the unpacker logs on the way.
\<close>

fun nested :: "nat \<Rightarrow> (string \<times> node) list" where
  "nested 0 = [(''data.csv'', Plain ''1,2'')]"
| "nested (Suc n) = [(''a.zip'', Zip (nested n))]"

fun unpacked :: "nat \<Rightarrow> node" where
  "unpacked 0 = Dir (nested 0)"
| "unpacked (Suc n) = Dir [(''a.zip'', Zip (nested n)), (''a'', unpacked n)]"

fun extraction_log :: "path \<Rightarrow> nat \<Rightarrow> event list" where
  "extraction_log p 0 = []"
| "extraction_log p (Suc n) =
     SuccessfullyExtracted (p @ [''a.zip'']) (p @ [''a'']) # extraction_log (p @ [''a'']) n"

text \<open>
  A tree in which no regular file is named \<^verbatim>\<open>*.zip\<close>, at any depth below its
  directories.
\<close>

fun no_archives :: "node \<Rightarrow> bool"
  and no_archive_entries :: "(string \<times> node) list \<Rightarrow> bool"
where
  "no_archives (Dir es) = no_archive_entries es"
| "no_archives (Plain b) = True"
| "no_archives (Zip zs) = True"
| "no_archives (Damaged zs m df) = True"
| "no_archive_entries [] = True"
| "no_archive_entries ((n, Dir cs) # es) = (no_archives (Dir cs) \<and> no_archive_entries es)"
| "no_archive_entries ((n, Plain b) # es) = (\<not> endswith n ''.zip'' \<and> no_archive_entries es)"
| "no_archive_entries ((n, Zip zs) # es) = (\<not> endswith n ''.zip'' \<and> no_archive_entries es)"
| "no_archive_entries ((n, Damaged zs m df) # es) = (\<not> endswith n ''.zip'' \<and> no_archive_entries es)"

text \<open>The files the sorter meets, each with its directory, in the order of the walk.\<close>

definition walk_files :: "node \<Rightarrow> path \<Rightarrow> (path \<times> string) list" where
  "walk_files fs dirpath =
     concat (map (\<lambda>(root, dirs, files). map (Pair root) files) (os_walk fs dirpath))"

text \<open>The scenario of the specification: a nested archive and a loose file.\<close>

definition scenario :: node where
  "scenario =
     Dir [(''a.zip'', Zip [(''b.zip'', Zip [(''report.pdf'', Plain ''%PDF''),
                                            (''data.csv'', Plain ''1,2'')])]),
          (''notes.csv'', Plain ''3,4'')]"

text \<open>What a path is in a tree: a directory (\<open>Some True\<close>), a regular file, or absent.\<close>

definition is_dir_node :: "node \<Rightarrow> bool" where
  "is_dir_node n =
     (case n of Dir es \<Rightarrow> True | Plain b \<Rightarrow> False | Zip zs \<Rightarrow> False | Damaged zs m df \<Rightarrow> False)"

definition kind :: "node \<Rightarrow> path \<Rightarrow> bool option" where
  "kind fs p = map_option is_dir_node (lookup fs p)"

text \<open>
  The directory an archive is extracted to, and whether a line of the log tells of an
  extraction, complete or broken off, into a directory above the path \<open>q\<close>. The line
  \<^verbatim>\<open>Bad ZIP file\<close> is one of them: it is logged for a file that is no archive, when nothing
  was written, and for a damaged member, when the members before it were.
\<close>

definition target_of :: "path \<Rightarrow> path" where
  "target_of full_path = butlast full_path @ [splitext_root (last full_path)]"



text \<open>The folder of the specification that holds one corrupt archive.\<close>

definition broken_folder :: node where
  "broken_folder = Dir [(''broken.zip'', Plain ''not a zip'')]"

text \<open>Two paths part ways: they agree up to a component in which they differ.\<close>

definition diverge :: "path \<Rightarrow> path \<Rightarrow> bool" where
  "diverge p q = (\<exists>a x y p' q'. p = a @ x # p' \<and> q = a @ y # q' \<and> x \<noteq> y)"

text \<open>
  What holds while the sorter works, with \<open>fs0\<close> the tree it started on: the folder
  \<open>dest\<close> holds under the name \<open>f\<close> the contents of a file \<open>f\<close> from below the root; every
  name in \<open>dest\<close> is as it was or holds such a copy with the suffix of the folder; and the
  tree below the root is untouched while both folders are directories without
  subdirectories.
\<close>

definition copied :: "node \<Rightarrow> path \<Rightarrow> path \<Rightarrow> string \<Rightarrow> node \<Rightarrow> bool" where
  "copied fs0 root dest f fs =
     (\<exists>r. isfile fs0 (root @ r @ [f]) \<and> lookup fs (dest @ [f]) = lookup fs0 (root @ r @ [f]))"

definition sorted_from :: "node \<Rightarrow> path \<Rightarrow> path \<Rightarrow> string \<Rightarrow> node \<Rightarrow> bool" where
  "sorted_from fs0 root dest suf fs =
     (\<forall>f. lookup fs (dest @ [f]) = lookup fs0 (dest @ [f])
          \<or> (endswith f suf \<and> copied fs0 root dest f fs))"

definition sort_inv :: "node \<Rightarrow> path \<Rightarrow> path \<Rightarrow> path \<Rightarrow> node \<Rightarrow> bool" where
  "sort_inv fs0 root csv pdf fs =
     ((\<forall>r. lookup fs (root @ r) = lookup fs0 (root @ r))
      \<and> isdir fs csv \<and> isdir fs pdf
      \<and> (\<forall>f. \<not> isdir fs (csv @ [f])) \<and> (\<forall>f. \<not> isdir fs (pdf @ [f]))
      \<and> sorted_from fs0 root csv ''.csv'' fs \<and> sorted_from fs0 root pdf ''.pdf'' fs)"

text \<open>One copy of the sorter into one of its folders, on the tree alone.\<close>

definition copy_result :: "path \<Rightarrow> path \<Rightarrow> node \<Rightarrow> node" where
  "copy_result src dest fs = (case shutil_copy src dest fs of Inl e \<Rightarrow> fs | Inr fs' \<Rightarrow> fs')"

text \<open>The file \<open>f\<close> of the directory \<open>root @ r\<close> has its copy, if it is one the sorter takes.\<close>

definition owed :: "node \<Rightarrow> path \<Rightarrow> path \<Rightarrow> path \<Rightarrow> path \<Rightarrow> string \<Rightarrow> node \<Rightarrow> bool" where
  "owed fs0 root csv pdf r f fs =
     ((isfile fs0 (root @ r @ [f]) \<and> endswith f ''.csv'' \<longrightarrow> copied fs0 root csv f fs)
      \<and> (isfile fs0 (root @ r @ [f]) \<and> endswith f ''.pdf'' \<longrightarrow> copied fs0 root pdf f fs))"

text \<open>Folders on which the program is run below.\<close>

definition notes_folder :: node where
  "notes_folder = Dir [(''notes.csv'', Plain ''3,4'')]"

definition archive_folder :: node where
  "archive_folder = Dir [(''a.zip'', Zip [(''f.txt'', Plain ''new'')])]"

definition colliding_folder :: node where
  "colliding_folder = Dir [(''a'', Dir []), (''a.zip'', Zip [(''f.txt'', Plain ''new'')])]"


definition kept_folder :: node where
  "kept_folder = Dir [(''broken'', Dir [(''keep.txt'', Plain ''k'')]), (''broken.zip'', Plain ''not a zip'')]"

definition two_csv_folder :: node where
  "two_csv_folder =
     Dir [(''Extracted'', Dir [(''d1'', Dir [(''x.csv'', Plain ''1'')]),
                                (''d2'', Dir [(''x.csv'', Plain ''2'')]),
                                (''readme.txt'', Plain ''r'')]),
          (''Merged'', Dir [])]"

definition plain_folder :: node where
  "plain_folder = Dir [(''docs'', Dir [(''notes.csv'', Plain ''3,4'')]), (''report.pdf'', Plain ''%PDF'')]"

definition occupied_folder :: node where
  "occupied_folder = Dir [(''Extracted'', Plain ''a file'')]"

definition shadowed_folder :: node where
  "shadowed_folder = Dir [(''d'', Dir [(''b'', Plain ''a file''), (''b.zip'', Zip [])])]"

text \<open>
  More of what a run that returned left behind: what a path is, and the files a walk
  from a path meets. \<open>result_lookup\<close> is \<open>outcome_lookup\<close> for the sorter, which needs no fuel.
\<close>

definition outcome_kind :: "(error + state) option \<Rightarrow> path \<Rightarrow> bool option option" where
  "outcome_kind r p = (case r of Some (Inr s) \<Rightarrow> Some (kind (disk s) p) | _ \<Rightarrow> None)"

definition outcome_files :: "(error + state) option \<Rightarrow> path \<Rightarrow> (path \<times> string) list option" where
  "outcome_files r p = (case r of Some (Inr s) \<Rightarrow> Some (walk_files (disk s) p) | _ \<Rightarrow> None)"

definition result_lookup :: "error + state \<Rightarrow> path \<Rightarrow> node option option" where
  "result_lookup r p = (case r of Inr s \<Rightarrow> Some (lookup (disk s) p) | Inl e \<Rightarrow> None)"

text \<open>
  A folder with an archive whose second member is damaged, the first one being an
  archive itself; and the state the unpacker leaves on it.
\<close>

definition damaged_folder :: node where
  "damaged_folder =
     Dir [(''x.zip'', Damaged [(''inner.zip'', Zip [(''f.txt'', Plain ''new'')])]
                              [''tail.bin''] (BadCRC ''ta''))]"

definition damaged_unpacked :: state where
  "damaged_unpacked =
     \<lparr>disk = Dir [(''x.zip'', Damaged [(''inner.zip'', Zip [(''f.txt'', Plain ''new'')])]
                                      [''tail.bin''] (BadCRC ''ta'')),
                  (''x'', Dir [(''inner.zip'', Zip [(''f.txt'', Plain ''new'')]),
                               (''tail.bin'', Plain ''ta'')])],
      log = [BadZipSkipping [''x.zip'']], progress = 0, maximum = 0, dialogs = []\<rparr>"

section \<open>The file system operations\<close>

lemma update_absent: "map_of al k = None \<Longrightarrow> AList.update k v al = al @ [(k, v)]"
  by (induction al) (auto split: if_splits)

lemma map_of_update_same: "map_of (AList.update k v al) k = Some v"
  by (simp add: update_conv')

lemma map_of_update_other: "k' \<noteq> k \<Longrightarrow> map_of (AList.update k v al) k' = map_of al k'"
  by (simp add: update_conv')

lemma lookup_append:
  "lookup fs (p @ q) = (case lookup fs p of None \<Rightarrow> None | Some n \<Rightarrow> lookup n q)"
proof (induction p arbitrary: fs)
  case Nil
  show ?case by simp
next
  case (Cons x p)
  show ?case by (cases fs) (auto simp: Cons.IH split: option.splits)
qed

lemma put_node_present:
  "map_of es x = Some c \<Longrightarrow> put_node (x # p) v (Dir es) = Dir (AList.update x (put_node p v c) es)"
  by (cases p) auto

lemma put_node_append:
  "lookup fs p = Some n \<Longrightarrow> put_node (p @ q) v fs = put_node p (put_node q v n) fs"
proof (induction p arbitrary: fs)
  case Nil
  then show ?case by simp
next
  case (Cons x p)
  then obtain es c where fs: "fs = Dir es" and c: "map_of es x = Some c" and n: "lookup c p = Some n"
    by (cases fs) (auto split: option.splits)
  have "put_node ((x # p) @ q) v fs = Dir (AList.update x (put_node (p @ q) v c) es)"
    using fs c by (simp add: put_node_present del: put_node.simps)
  also have "\<dots> = Dir (AList.update x (put_node p (put_node q v n) c) es)"
    using Cons.IH [OF n] by simp
  also have "\<dots> = put_node (x # p) (put_node q v n) fs"
    using fs c by (simp add: put_node_present del: put_node.simps)
  finally show ?case .
qed

lemma lookup_put_node:
  "lookup fs p = Some n \<Longrightarrow> lookup (put_node p v fs) (p @ q) = lookup v q"
proof (induction p arbitrary: fs)
  case Nil
  then show ?case by simp
next
  case (Cons x p)
  then obtain es c where fs: "fs = Dir es" and c: "map_of es x = Some c" and n: "lookup c p = Some n"
    by (cases fs) (auto split: option.splits)
  show ?case
    using fs c Cons.IH [OF n] by (simp add: put_node_present map_of_update_same del: put_node.simps)
qed

lemma put_node_same: "lookup fs p = Some n \<Longrightarrow> put_node p n fs = fs"
proof (induction p arbitrary: fs)
  case Nil
  then show ?case by simp
next
  case (Cons x p)
  then obtain es c where fs: "fs = Dir es" and c: "map_of es x = Some c" and n: "lookup c p = Some n"
    by (cases fs) (auto split: option.splits)
  show ?case
    using fs c Cons.IH [OF n] by (simp add: put_node_present update_triv del: put_node.simps)
qed

lemma put_node_twice:
  "lookup fs p = Some n \<Longrightarrow> put_node p v (put_node p w fs) = put_node p v fs"
proof (induction p arbitrary: fs)
  case Nil
  then show ?case by simp
next
  case (Cons x p)
  then obtain es c where fs: "fs = Dir es" and c: "map_of es x = Some c" and n: "lookup c p = Some n"
    by (cases fs) (auto split: option.splits)
  show ?case
    using fs c Cons.IH [OF n]
    by (simp add: put_node_present map_of_update_same del: put_node.simps)
qed

text \<open>Creating an entry in a directory.\<close>

lemma put_node_child:
  "lookup fs p = Some (Dir es) \<Longrightarrow> put_node (p @ [x]) v fs = put_node p (Dir (AList.update x v es)) fs"
  by (simp add: put_node_append)

lemma lookup_child:
  "lookup fs p = Some (Dir es) \<Longrightarrow> lookup fs (p @ x # q) = (case map_of es x of None \<Rightarrow> None | Some c \<Rightarrow> lookup c q)"
  by (simp add: lookup_append)

lemma makedirs_child:
  "lookup fs p = Some (Dir es) \<Longrightarrow> map_of es x = None
   \<Longrightarrow> makedirs (p @ [x]) fs = Inr (put_node (p @ [x]) (Dir []) fs)"
proof (induction p arbitrary: fs)
  case Nil
  then show ?case by (simp add: update_absent)
next
  case (Cons y p)
  then obtain fs_es c where fs: "fs = Dir fs_es" and c: "map_of fs_es y = Some c"
    and n: "lookup c p = Some (Dir es)"
    by (cases fs) (auto split: option.splits)
  show ?case
    using fs c Cons.IH [OF n Cons.prems(2)] by simp
qed

section \<open>Nothing is removed\<close>

text \<open>An extraction keeps what every path was: a directory stays one, a regular file stays one.\<close>

lemma kind_simps [simp]:
  "kind n [] = Some (is_dir_node n)"
  "kind (Dir es) (x # p) = (case map_of es x of None \<Rightarrow> None | Some c \<Rightarrow> kind c p)"
  "kind (Plain b) (x # p) = None"
  "kind (Zip zs) (x # p) = None"
  "kind (Damaged zs m df) (x # p) = None"
  by (simp_all add: kind_def split: option.splits)

lemma is_dir_node_simps [simp]:
  "is_dir_node (Dir es)" "\<not> is_dir_node (Plain b)" "\<not> is_dir_node (Zip zs)"
  "\<not> is_dir_node (Damaged zs m df)"
  by (simp_all add: is_dir_node_def)

lemma isdir_kind: "isdir fs p = (kind fs p = Some True)"
  by (auto simp: isdir_def kind_def is_dir_node_def split: option.splits node.splits)


lemma exists_kind: "exists_path fs p = (kind fs p \<noteq> None)"
  by (simp add: exists_path_def kind_def)

lemma kind_file_deeper: "kind c q = Some k \<Longrightarrow> \<not> is_dir_node c \<Longrightarrow> q = [] \<and> \<not> k"
  by (cases c; cases q) auto

lemma merge_kind:
  "merge_member m d = (d', e) \<Longrightarrow> kind (Dir d) p = Some k \<Longrightarrow> kind (Dir d') p = Some k"
  "merge_members ms d = (d', e) \<Longrightarrow> kind (Dir d) p = Some k \<Longrightarrow> kind (Dir d') p = Some k"
proof (induction m d and ms d arbitrary: d' e p k and d' e p k rule: merge_member_merge_members.induct)
  case (1 n cs d)
  show ?case
  proof (cases p)
    case Nil
    with "1.prems" show ?thesis by simp
  next
    case (Cons x q)
    show ?thesis
    proof (cases "map_of d n")
      case None
      obtain c' e' where m: "merge_members cs [] = (c', e')" by force
      with None "1.prems" have d': "d' = d @ [(n, Dir c')]" by simp
      from "1.prems"(2) Cons None have "x \<noteq> n" by auto
      then show ?thesis using "1.prems"(2) Cons None
        by (auto simp: d' map_add_def split: option.splits)
    next
      case (Some old)
      show ?thesis
      proof (cases old)
        case (Dir olds)
        obtain c' e' where m: "merge_members cs olds = (c', e')" by force
        with Some Dir "1.prems" have d': "d' = AList.update n (Dir c') d" by simp
        show ?thesis
        proof (cases "x = n")
          case True
          with "1.prems"(2) Cons Some Dir have "kind (Dir olds) q = Some k" by simp
          from "1.IH"(2) [OF Some Dir m this] show ?thesis
            using True Cons by (simp add: d' update_conv')
        next
          case False
          then show ?thesis using "1.prems"(2) Cons by (simp add: d' update_conv')
        qed
      qed (use Some "1.prems" in auto)
    qed
  qed
next
  case (2 n b d)
  show ?case
  proof (cases p)
    case Nil
    with "2.prems" show ?thesis by simp
  next
    case (Cons x q)
    show ?thesis
    proof (cases "\<exists>old. map_of d n = Some (Dir old)")
      case True
      with "2.prems" show ?thesis by auto
    next
      case False
      with "2.prems"(1) have d': "d' = AList.update n (Plain b) d"
        by (auto split: option.splits node.splits)
      show ?thesis
      proof (cases "x = n")
        case True
        with "2.prems"(2) Cons obtain c where c: "map_of d n = Some c" "kind c q = Some k"
          by (auto split: option.splits)
        with False have "\<not> is_dir_node c" by (cases c) auto
        with kind_file_deeper [OF c(2)] show ?thesis using True Cons by (simp add: d' update_conv')
      next
        case False
        then show ?thesis using "2.prems"(2) Cons by (simp add: d' update_conv')
      qed
    qed
  qed
next
  case (3 n zs d)
  show ?case
  proof (cases p)
    case Nil
    with "3.prems" show ?thesis by simp
  next
    case (Cons x q)
    show ?thesis
    proof (cases "\<exists>old. map_of d n = Some (Dir old)")
      case True
      with "3.prems" show ?thesis by auto
    next
      case False
      with "3.prems"(1) have d': "d' = AList.update n (Zip zs) d"
        by (auto split: option.splits node.splits)
      show ?thesis
      proof (cases "x = n")
        case True
        with "3.prems"(2) Cons obtain c where c: "map_of d n = Some c" "kind c q = Some k"
          by (auto split: option.splits)
        with False have "\<not> is_dir_node c" by (cases c) auto
        with kind_file_deeper [OF c(2)] show ?thesis using True Cons by (simp add: d' update_conv')
      next
        case False
        then show ?thesis using "3.prems"(2) Cons by (simp add: d' update_conv')
      qed
    qed
  qed
next
  case (4 n zs m df d)
  show ?case
  proof (cases p)
    case Nil
    with "4.prems" show ?thesis by simp
  next
    case (Cons x q)
    show ?thesis
    proof (cases "\<exists>old. map_of d n = Some (Dir old)")
      case True
      with "4.prems" show ?thesis by auto
    next
      case False
      with "4.prems"(1) have d': "d' = AList.update n (Damaged zs m df) d"
        by (auto split: option.splits node.splits)
      show ?thesis
      proof (cases "x = n")
        case True
        with "4.prems"(2) Cons obtain c where c: "map_of d n = Some c" "kind c q = Some k"
          by (auto split: option.splits)
        with False have "\<not> is_dir_node c" by (cases c) auto
        with kind_file_deeper [OF c(2)] show ?thesis using True Cons by (simp add: d' update_conv')
      next
        case False
        then show ?thesis using "4.prems"(2) Cons by (simp add: d' update_conv')
      qed
    qed
  qed
next
  case (5 d)
  then show ?case by simp
next
  case (6 m ms d)
  obtain d1 e1 where m: "merge_member m d = (d1, e1)" by force
  from "6.IH"(1) [OF m "6.prems"(2)] have k1: "kind (Dir d1) p = Some k" .
  show ?case
  proof (cases e1)
    case None
    with m "6.prems"(1) have "merge_members ms d1 = (d', e)" by simp
    from "6.IH"(2) [OF m [symmetric] None this k1] show ?thesis .
  next
    case (Some err)
    with m "6.prems"(1) have "d' = d1" by simp
    with k1 show ?thesis by simp
  qed
qed

lemma put_node_kind:
  assumes "lookup fs t = Some a"
    and "\<And>q k. kind a q = Some k \<Longrightarrow> kind b q = Some k"
    and "kind fs p = Some k"
  shows "kind (put_node t b fs) p = Some k"
  using assms(1,3)
proof (induction t arbitrary: fs p)
  case Nil
  then show ?case using assms(2) by simp
next
  case (Cons x t)
  then obtain es c where fs: "fs = Dir es" and c: "map_of es x = Some c" and a: "lookup c t = Some a"
    by (cases fs) (auto split: option.splits)
  show ?case
  proof (cases p)
    case Nil
    then show ?thesis using Cons.prems fs c by (simp add: put_node_present del: put_node.simps)
  next
    case (Cons y q)
    show ?thesis
    proof (cases "y = x")
      case True
      with Cons Cons.prems(2) fs c have "kind c q = Some k" by simp
      from Cons.IH [OF a this] show ?thesis
        using True Cons fs c by (simp add: put_node_present update_conv' del: put_node.simps)
    next
      case False
      then show ?thesis
        using Cons Cons.prems(2) fs c by (simp add: put_node_present update_conv' del: put_node.simps)
    qed
  qed
qed

lemma makedirs_kind:
  "makedirs t fs = Inr fs' \<Longrightarrow> kind fs p = Some k \<Longrightarrow> kind fs' p = Some k"
proof (induction t fs arbitrary: fs' p rule: makedirs.induct)
  case (5 x t es)
  show ?case
  proof (cases p)
    case Nil
    with "5.prems" show ?thesis by (auto split: option.splits sum.splits)
  next
    case (Cons y q)
    show ?thesis
    proof (cases "map_of es x")
      case None
      with "5.prems"(1) obtain c where "fs' = Dir (es @ [(x, c)])"
        by (auto split: sum.splits)
      moreover from "5.prems"(2) Cons None have "y \<noteq> x" by auto
      ultimately show ?thesis using "5.prems"(2) Cons
        by (auto simp: map_add_def split: option.splits)
    next
      case (Some c)
      with "5.prems"(1) obtain c' where c': "makedirs t c = Inr c'" and fs': "fs' = Dir (AList.update x c' es)"
        by (auto split: sum.splits)
      show ?thesis
      proof (cases "y = x")
        case True
        with "5.prems"(2) Cons Some have "kind c q = Some k" by simp
        from "5.IH"(2) [OF Some c' this] show ?thesis
          using True Cons by (simp add: fs' update_conv')
      next
        case False
        then show ?thesis using "5.prems"(2) Cons by (simp add: fs' update_conv')
      qed
    qed
  qed
qed auto

lemma ensure_dir_kind:
  "ensure_dir t fs = Inr fs' \<Longrightarrow> kind fs p = Some k \<Longrightarrow> kind fs' p = Some k"
  by (auto simp: ensure_dir_def makedirs_kind split: if_splits)

lemma extract_members_kind:
  assumes "extract_members t ms fs = (fs', e)" and "kind fs p = Some k"
  shows "kind fs' p = Some k"
proof (cases "\<exists>d. lookup fs t = Some (Dir d)")
  case True
  then obtain d where d: "lookup fs t = Some (Dir d)" by blast
  obtain d' e' where m: "merge_members ms d = (d', e')" by force
  with assms(1) d have fs': "fs' = put_node t (Dir d') fs" by (simp add: extract_members_def)
  show ?thesis unfolding fs'
    by (rule put_node_kind [OF d _ assms(2)]) (rule merge_kind(2) [OF m])
next
  case False
  with assms(1) have "fs' = fs"
    by (auto simp: extract_members_def split: option.splits node.splits)
  with assms(2) show ?thesis by simp
qed

lemma put_file_kind:
  assumes d: "lookup fs u = Some (Dir es)" and n: "\<not> isdir fs (u @ [x])" and k: "kind fs p = Some k"
  shows "kind (put_node (u @ [x]) (Plain b) fs) p = Some k"
proof -
  have step: "kind (Dir (AList.update x (Plain b) es)) q = Some k'" if q: "kind (Dir es) q = Some k'" for q k'
  proof (cases q)
    case Nil
    with q show ?thesis by simp
  next
    case (Cons y r)
    show ?thesis
    proof (cases "y = x")
      case False
      with q Cons show ?thesis by (simp add: update_conv')
    next
      case True
      with q Cons obtain c where c: "map_of es x = Some c" and kc: "kind c r = Some k'"
        by (auto split: option.splits)
      from d c have "lookup fs (u @ [x]) = Some c" by (simp add: lookup_append)
      with n have "\<not> is_dir_node c" by (simp add: isdir_kind kind_def)
      from kind_file_deeper [OF kc this] show ?thesis using True Cons by (simp add: update_conv')
    qed
  qed
  show ?thesis unfolding put_node_child [OF d]
    by (rule put_node_kind [OF d _ k]) (rule step)
qed

lemma extract_damaged_kind:
  assumes "extract_damaged t m df fs = (fs', e)" and "kind fs p = Some k"
  shows "kind fs' p = Some k"
proof (cases "ensure_dir (t @ butlast m) fs")
  case (Inl x)
  with assms show ?thesis by (simp add: extract_damaged_def)
next
  case (Inr fs1)
  have k1: "kind fs1 p = Some k" by (rule ensure_dir_kind [OF Inr assms(2)])
  show ?thesis
  proof (cases "\<exists>w. df = BadCRC w \<and> m \<noteq> [] \<and> \<not> isdir fs1 (t @ m) \<and> isdir fs1 (t @ butlast m)")
    case False
    with assms(1) Inr have "fs' = fs1"
      by (auto simp: extract_damaged_def Let_def split: defect.splits if_splits)
    with k1 show ?thesis by simp
  next
    case True
    then obtain w where w: "df = BadCRC w" and m: "m \<noteq> []" and nd: "\<not> isdir fs1 (t @ m)"
      and up: "isdir fs1 (t @ butlast m)" by blast
    from up obtain es where es: "lookup fs1 (t @ butlast m) = Some (Dir es)"
      by (auto simp: isdir_def split: option.splits node.splits)
    from m have tm: "t @ m = (t @ butlast m) @ [last m]" by simp
    from assms(1) Inr w m nd up have "fs' = put_node (t @ m) (Plain w) fs1"
      by (simp add: extract_damaged_def Let_def)
    then have fs': "fs' = put_node ((t @ butlast m) @ [last m]) (Plain w) fs1" using tm by simp
    from nd tm have nd': "\<not> isdir fs1 ((t @ butlast m) @ [last m])" by simp
    show ?thesis unfolding fs' by (rule put_file_kind [OF es nd' k1])
  qed
qed

lemma extractall_kind:
  assumes "extractall t ms dmg fs = (fs', e)" and "kind fs p = Some k"
  shows "kind fs' p = Some k"
proof -
  obtain fs1 e1 where m: "extract_members t ms fs = (fs1, e1)" by force
  have k1: "kind fs1 p = Some k" by (rule extract_members_kind [OF m assms(2)])
  show ?thesis
  proof (cases e1)
    case (Some x)
    with assms(1) m have "fs' = fs1" by (simp add: extractall_def)
    with k1 show ?thesis by simp
  next
    case None
    show ?thesis
    proof (cases dmg)
      case None
      with assms(1) m \<open>e1 = None\<close> have "fs' = fs1" by (simp add: extractall_def)
      with k1 show ?thesis by simp
    next
      case (Some md)
      obtain m' df where md: "md = (m', df)" by force
      from assms(1) m \<open>e1 = None\<close> Some md have "extract_damaged t m' df fs1 = (fs', e)"
        by (simp add: extractall_def)
      then show ?thesis using k1 by (rule extract_damaged_kind)
    qed
  qed
qed

lemma handler_disk [simp]: "disk (unpack_handler e full s) = disk s"
  by (simp add: unpack_handler_def log_message_def split: error.splits)

lemma log_progress_disk [simp]:
  "disk (log_message m s) = disk s" "disk (update_progress s) = disk s"
  by (simp_all add: log_message_def update_progress_def)

text \<open>The five ways through the body of the loop.\<close>

lemma process_item_cases [consumes 1, case_names no_archive mkdir_error open_error extract_error extracted]:
  assumes "process_item c item (stk, s) = (stk', s')"
  obtains "\<not> (isfile (disk s) (c @ [item]) \<and> endswith item ''.zip'')"
      "stk' = (if isdir (disk s) (c @ [item]) then (c @ [item]) # stk else stk)" "s' = s"
  | e where "isfile (disk s) (c @ [item])" "endswith item ''.zip''"
      "ensure_dir (c @ [splitext_root item]) (disk s) = Inl e"
      "stk' = stk" "s' = unpack_handler e (c @ [item]) s"
  | fs1 e where "isfile (disk s) (c @ [item])" "endswith item ''.zip''"
      "ensure_dir (c @ [splitext_root item]) (disk s) = Inr fs1"
      "open_zip fs1 (c @ [item]) = Inl e"
      "stk' = stk" "s' = unpack_handler e (c @ [item]) (s\<lparr>disk := fs1\<rparr>)"
  | fs1 ms dmg fs2 e where "isfile (disk s) (c @ [item])" "endswith item ''.zip''"
      "ensure_dir (c @ [splitext_root item]) (disk s) = Inr fs1"
      "open_zip fs1 (c @ [item]) = Inr (ms, dmg)"
      "extractall (c @ [splitext_root item]) ms dmg fs1 = (fs2, Some e)"
      "stk' = stk" "s' = unpack_handler e (c @ [item]) (s\<lparr>disk := fs2\<rparr>)"
  | fs1 ms dmg fs2 where "isfile (disk s) (c @ [item])" "endswith item ''.zip''"
      "ensure_dir (c @ [splitext_root item]) (disk s) = Inr fs1"
      "open_zip fs1 (c @ [item]) = Inr (ms, dmg)"
      "extractall (c @ [splitext_root item]) ms dmg fs1 = (fs2, None)"
      "stk' = (c @ [splitext_root item]) # stk"
      "s' = update_progress (log_message (SuccessfullyExtracted (c @ [item]) (c @ [splitext_root item]))
             (s\<lparr>disk := fs2\<rparr>))"
proof (cases "isfile (disk s) (c @ [item]) \<and> endswith item ''.zip''")
  case False
  with assms that(1) show ?thesis by (auto simp: process_item_def Let_def split: if_splits)
next
  case True
  show ?thesis
  proof (cases "ensure_dir (c @ [splitext_root item]) (disk s)")
    case (Inl e)
    with True assms that(2) show ?thesis by (auto simp: process_item_def Let_def)
  next
    case (Inr fs1)
    show ?thesis
    proof (cases "open_zip fs1 (c @ [item])")
      case (Inl e)
      with True Inr assms that(3) show ?thesis by (auto simp: process_item_def Let_def)
    next
      case Inr2: (Inr md)
      obtain ms dmg where md: "md = (ms, dmg)" by force
      obtain fs2 e where ex: "extractall (c @ [splitext_root item]) ms dmg fs1 = (fs2, e)" by force
      show ?thesis
      proof (cases e)
        case None
        with True Inr Inr2 md ex assms that(5) show ?thesis by (auto simp: process_item_def Let_def)
      next
        case (Some err)
        with True Inr Inr2 md ex assms that(4) show ?thesis by (auto simp: process_item_def Let_def)
      qed
    qed
  qed
qed






section \<open>The unpacker on nested archives\<close>

lemma a_zip_name: "endswith ''a.zip'' ''.zip''" "splitext_root ''a.zip'' = ''a''"
  "\<not> endswith ''data.csv'' ''.zip''"
  by code_simp+

lemma merge_members_nested: "merge_members (nested n) [] = (nested n, None)"
  by (cases n) simp_all

lemma unpack_loop_round:
  "unpack_round (p # stk, s) = Inr st \<Longrightarrow> unpack_loop (Suc fuel) (p # stk, s) = unpack_loop fuel st"
  by simp

lemma nested_round_0:
  assumes "lookup (disk s) p = Some (Dir (nested 0))"
  shows "unpack_round (p # stk, s) = Inr (stk, s)"
  using assms
  by (simp add: unpack_round_def listdir_def process_item_def isfile_def isdir_def lookup_child a_zip_name)

lemma nested_round_Suc:
  assumes "lookup (disk s) p = Some (Dir (nested (Suc n)))"
  shows "unpack_round (p # stk, s) =
           Inr ((p @ [''a'']) # stk,
                s\<lparr>disk := put_node p (Dir [(''a.zip'', Zip (nested n)), (''a'', Dir (nested n))]) (disk s),
                  log := log s @ [SuccessfullyExtracted (p @ [''a.zip'']) (p @ [''a''])],
                  progress := progress s + 1\<rparr>)"
proof -
  let ?es = "[(''a.zip'', Zip (nested n))]"
  let ?fs1 = "put_node p (Dir [(''a.zip'', Zip (nested n)), (''a'', Dir [])]) (disk s)"
  have p: "lookup (disk s) p = Some (Dir ?es)" using assms by simp
  have isf: "isfile (disk s) (p @ [''a.zip''])"
    by (simp add: isfile_def lookup_child [OF p])
  have absent: "\<not> exists_path (disk s) (p @ [''a''])"
    by (simp add: exists_path_def lookup_child [OF p])
  have mk: "makedirs (p @ [''a'']) (disk s) = Inr ?fs1"
    using makedirs_child [OF p, of "''a''"] by (simp add: put_node_child [OF p])
  have p1: "lookup ?fs1 p = Some (Dir [(''a.zip'', Zip (nested n)), (''a'', Dir [])])"
    using lookup_put_node [OF p, of _ "[]"] by simp
  have zip: "lookup ?fs1 (p @ [''a.zip'']) = Some (Zip (nested n))"
    by (simp add: lookup_child [OF p1])
  have tgt: "lookup ?fs1 (p @ [''a'']) = Some (Dir [])"
    by (simp add: lookup_child [OF p1])
  have opn: "open_zip ?fs1 (p @ [''a.zip'']) = Inr (nested n, None)"
    by (simp add: open_zip_def zip)
  have ex: "extractall (p @ [''a'']) (nested n) None ?fs1 =
              (put_node p (Dir [(''a.zip'', Zip (nested n)), (''a'', Dir (nested n))]) (disk s), None)"
    by (simp add: extractall_def extract_members_def tgt merge_members_nested put_node_child [OF p1]
        put_node_twice [OF p])
  show ?thesis
    using isf absent
    by (simp add: unpack_round_def listdir_def p process_item_def a_zip_name ensure_dir_def mk opn ex Let_def
        update_progress_def log_message_def)
qed

lemma unpack_nested:
  "lookup (disk s) p = Some (Dir (nested n)) \<Longrightarrow>
   unpack_loop (Suc n + fuel) (p # stk, s) =
   unpack_loop fuel (stk, s\<lparr>disk := put_node p (unpacked n) (disk s),
                              log := log s @ extraction_log p n,
                              progress := progress s + n\<rparr>)"
proof (induction n arbitrary: p s stk)
  case 0
  have "put_node p (unpacked 0) (disk s) = disk s"
    using 0 by (simp add: put_node_same)
  then show ?case
    using nested_round_0 [OF 0] by simp
next
  case (Suc n)
  let ?s1 = "s\<lparr>disk := put_node p (Dir [(''a.zip'', Zip (nested n)), (''a'', Dir (nested n))]) (disk s),
                log := log s @ [SuccessfullyExtracted (p @ [''a.zip'']) (p @ [''a''])],
                progress := progress s + 1\<rparr>"
  have p: "lookup (disk s) p = Some (Dir [(''a.zip'', Zip (nested n))])" using Suc.prems by simp
  let ?d1 = "put_node p (Dir [(''a.zip'', Zip (nested n)), (''a'', Dir (nested n))]) (disk s)"
  have p1: "lookup ?d1 p = Some (Dir [(''a.zip'', Zip (nested n)), (''a'', Dir (nested n))])"
    using lookup_put_node [OF p, of _ "[]"] by simp
  have "lookup ?d1 (p @ [''a'']) = Some (Dir (nested n))"
    by (simp add: lookup_child [OF p1])
  then have a: "lookup (disk ?s1) (p @ [''a'']) = Some (Dir (nested n))"
    by simp
  have "put_node (p @ [''a'']) (unpacked n) ?d1 = put_node p (unpacked (Suc n)) (disk s)"
    using put_node_child [OF p1, of "''a''" "unpacked n"] by (simp add: put_node_twice [OF p])
  then have d: "put_node (p @ [''a'']) (unpacked n) (disk ?s1) = put_node p (unpacked (Suc n)) (disk s)"
    by simp
  have "unpack_loop (Suc (Suc n) + fuel) (p # stk, s) = unpack_loop (Suc n + fuel) ((p @ [''a'']) # stk, ?s1)"
    using nested_round_Suc [OF Suc.prems, of stk] by simp
  also have "\<dots> = unpack_loop fuel (stk, ?s1\<lparr>disk := put_node (p @ [''a'']) (unpacked n) (disk ?s1),
                              log := log ?s1 @ extraction_log (p @ [''a'']) n,
                              progress := progress ?s1 + n\<rparr>)"
    by (rule Suc.IH [OF a])
  also have "\<dots> = unpack_loop fuel (stk, s\<lparr>disk := put_node p (unpacked (Suc n)) (disk s),
                              log := log s @ extraction_log p (Suc n),
                              progress := progress s + Suc n\<rparr>)"
    unfolding d by simp
  finally show ?case .
qed

lemma isdir_unpacked: "isdir (unpacked n) (replicate k ''a'') = (k \<le> n)"
proof (induction n arbitrary: k)
  case 0
  show ?case by (cases k) (simp_all add: isdir_def)
next
  case (Suc n)
  show ?case using Suc.IH by (cases k) (simp_all add: isdir_def)
qed

lemma length_extraction_log: "length (extraction_log p n) = n"
  by (induction n arbitrary: p) simp_all

section \<open>Single steps of the unpacker\<close>

lemma isdir_lookup: "isdir fs p \<Longrightarrow> \<exists>es. lookup fs p = Some (Dir es)"
  by (auto simp: isdir_def split: option.splits node.splits)

lemma ensure_dir_child:
  assumes "lookup fs c = Some (Dir es)"
  shows "ensure_dir (c @ [x]) fs =
           Inr (if exists_path fs (c @ [x]) then fs else put_node (c @ [x]) (Dir []) fs)"
proof (cases "map_of es x")
  case None
  then have "\<not> exists_path fs (c @ [x])" by (simp add: exists_path_def lookup_child [OF assms])
  then show ?thesis using makedirs_child [OF assms None] by (simp add: ensure_dir_def)
next
  case (Some n)
  then have "exists_path fs (c @ [x])" by (simp add: exists_path_def lookup_child [OF assms])
  then show ?thesis by (simp add: ensure_dir_def)
qed

section \<open>What an extraction can overwrite\<close>


lemma makedirs_file_frame:
  "makedirs t fs = Inr fs' \<Longrightarrow> lookup fs q = Some n \<Longrightarrow> \<not> is_dir_node n
   \<Longrightarrow> lookup fs' q = Some n"
proof (induction t fs arbitrary: fs' q rule: makedirs.induct)
  case (5 x t es)
  show ?case
  proof (cases q)
    case Nil
    with "5.prems"(2,3) show ?thesis by auto
  next
    case (Cons y q')
    show ?thesis
    proof (cases "map_of es x")
      case None
      with "5.prems"(1) obtain c where "fs' = Dir (es @ [(x, c)])"
        by (auto split: sum.splits)
      moreover from "5.prems"(2) Cons None have "y \<noteq> x" by auto
      ultimately show ?thesis using "5.prems"(2) Cons
        by (auto simp: map_add_def split: option.splits)
    next
      case (Some c)
      with "5.prems"(1) obtain c' where c': "makedirs t c = Inr c'" and fs': "fs' = Dir (AList.update x c' es)"
        by (auto split: sum.splits)
      show ?thesis
      proof (cases "y = x")
        case True
        with "5.prems"(2) Cons Some have "lookup c q' = Some n" by simp
        from "5.IH"(2) [OF Some c' this "5.prems"(3)] show ?thesis
          using True Cons by (simp add: fs' update_conv')
      next
        case False
        then show ?thesis using "5.prems"(2) Cons by (simp add: fs' update_conv')
      qed
    qed
  qed
qed auto

lemma ensure_dir_file_frame:
  "ensure_dir t fs = Inr fs' \<Longrightarrow> lookup fs q = Some n \<Longrightarrow> \<not> is_dir_node n
   \<Longrightarrow> lookup fs' q = Some n"
  by (auto simp: ensure_dir_def makedirs_file_frame split: if_splits)

lemma merge_error:
  "merge_member m d = (d', Some e) \<Longrightarrow> e = OtherOSError"
  "merge_members ms d = (d', Some e) \<Longrightarrow> e = OtherOSError"
  by (induction m d and ms d arbitrary: d' and d' rule: merge_member_merge_members.induct)
     (auto split: option.splits node.splits prod.splits)

lemma makedirs_error: "makedirs t fs = Inl e \<Longrightarrow> e = OtherOSError"
  by (induction t fs rule: makedirs.induct) (auto split: option.splits sum.splits)

lemma extract_members_error: "extract_members t ms fs = (fs', Some e) \<Longrightarrow> e = OtherOSError"
  by (auto simp: extract_members_def merge_error split: option.splits node.splits prod.splits if_splits)






lemma target_of_full [simp]: "target_of (c @ [item]) = c @ [splitext_root item]"
  by (simp add: target_of_def)











section \<open>The frontier\<close>













section \<open>Which directories the frontier misses\<close>























section \<open>Trees without archives\<close>

lemma no_archive_entries_member:
  "no_archive_entries es \<Longrightarrow> (n, c) \<in> set es \<Longrightarrow>
   (if is_dir_node c then no_archives c else \<not> endswith n ''.zip'')"
proof (induction es)
  case Nil
  then show ?case by simp
next
  case (Cons e es)
  obtain m d where e: "e = (m, d)" by force
  with Cons show ?case by (cases d) (auto split: if_splits)
qed

lemma process_item_no_archive:
  assumes "lookup (disk s) p = Some (Dir es)" and "no_archive_entries es" and "n \<in> fst ` set es"
  shows "process_item p n (stk, s) = ((if isdir (disk s) (p @ [n]) then [p @ [n]] else []) @ stk, s)"
proof -
  from assms(3) obtain c where c: "map_of es n = Some c"
    by (metis map_of_eq_None_iff not_Some_eq)
  then have "(n, c) \<in> set es" by (rule map_of_SomeD)
  from no_archive_entries_member [OF assms(2) this]
  have "is_dir_node c \<or> \<not> endswith n ''.zip''" by (auto split: if_splits)
  moreover have "isfile (disk s) (p @ [n]) = (\<not> is_dir_node c)"
    using c by (cases c) (simp_all add: isfile_def lookup_child [OF assms(1)])
  ultimately show ?thesis by (auto simp: process_item_def Let_def)
qed

lemma process_items_no_archive:
  assumes "lookup (disk s) p = Some (Dir es)" and "no_archive_entries es"
  shows "set ns \<subseteq> fst ` set es \<Longrightarrow>
         fold (process_item p) ns (stk, s) =
           (rev (map (\<lambda>n. p @ [n]) (filter (\<lambda>n. isdir (disk s) (p @ [n])) ns)) @ stk, s)"
proof (induction ns arbitrary: stk)
  case Nil
  show ?case by simp
next
  case (Cons n ns)
  from Cons.prems have n: "n \<in> fst ` set es" and ns: "set ns \<subseteq> fst ` set es" by auto
  show ?case
    by (simp add: process_item_no_archive [OF assms n] Cons.IH [OF ns])
qed

text \<open>A path is done with in \<open>k\<close> rounds, leaving the state as it is.\<close>

lemma unpack_list_unchanged:
  assumes "\<And>q. q \<in> set qs \<Longrightarrow>
             \<exists>k. \<forall>fuel stk. unpack_loop (k + fuel) (q # stk, s) = unpack_loop fuel (stk, s)"
  shows "\<exists>k. \<forall>fuel stk. unpack_loop (k + fuel) (qs @ stk, s) = unpack_loop fuel (stk, s)"
  using assms
proof (induction qs)
  case Nil
  have "\<forall>fuel stk. unpack_loop (0 + fuel) ([] @ stk, s) = unpack_loop fuel (stk, s)" by simp
  then show ?case by blast
next
  case (Cons q qs)
  from Cons.prems [of q] obtain k1 where
    k1: "\<And>fuel stk. unpack_loop (k1 + fuel) (q # stk, s) = unpack_loop fuel (stk, s)" by auto
  from Cons.IH Cons.prems obtain k2 where
    k2: "\<And>fuel stk. unpack_loop (k2 + fuel) (qs @ stk, s) = unpack_loop fuel (stk, s)" by auto
  have "\<forall>fuel stk. unpack_loop ((k1 + k2) + fuel) ((q # qs) @ stk, s) = unpack_loop fuel (stk, s)"
    using k1 [of "k2 + _" "qs @ _"] k2 by (simp add: add.assoc)
  then show ?case by blast
qed

lemma unpack_no_archives:
  "no_archives t \<Longrightarrow> lookup (disk s) p = Some t \<Longrightarrow> is_dir_node t \<Longrightarrow>
   \<exists>k. \<forall>fuel stk. unpack_loop (k + fuel) (p # stk, s) = unpack_loop fuel (stk, s)"
proof (induction t arbitrary: p)
  case (Plain b)
  then show ?case by simp
next
  case (Zip zs)
  then show ?case by simp
next
  case (Damaged zs m df)
  then show ?case by simp
next
  case (Dir es)
  from Dir.prems have es: "lookup (disk s) p = Some (Dir es)" and na: "no_archive_entries es"
    by simp_all
  let ?qs = "rev (map (\<lambda>n. p @ [n]) (filter (\<lambda>n. isdir (disk s) (p @ [n])) (map fst es)))"
  have round: "unpack_round (p # stk, s) = Inr (?qs @ stk, s)" for stk
    using process_items_no_archive [OF es na, of "map fst es" stk]
    by (simp add: unpack_round_def listdir_def es)
  have "\<exists>k. \<forall>fuel stk. unpack_loop (k + fuel) (q # stk, s) = unpack_loop fuel (stk, s)"
    if "q \<in> set ?qs" for q
  proof -
    from that obtain n where q: "q = p @ [n]" and d: "isdir (disk s) (p @ [n])" by auto
    from d obtain c where c: "map_of es n = Some c" and cd: "is_dir_node c"
      and l: "lookup (disk s) (p @ [n]) = Some c"
      by (auto simp: isdir_def lookup_child [OF es] split: option.splits node.splits)
    from c have mem: "(n, c) \<in> set es" by (rule map_of_SomeD)
    from no_archive_entries_member [OF na mem] cd have "no_archives c" by simp
    from Dir.IH [OF mem _ this l cd] show ?thesis unfolding q by simp
  qed
  from unpack_list_unchanged [of ?qs s, OF this] obtain k where
    k: "\<And>fuel stk. unpack_loop (k + fuel) (?qs @ stk, s) = unpack_loop fuel (stk, s)" by blast
  have "\<forall>fuel stk. unpack_loop (Suc k + fuel) (p # stk, s) = unpack_loop fuel (stk, s)"
    using round k by simp
  then show ?case by blast
qed

section \<open>Staging a folder of plain files\<close>

lemma stage_items_append:
  "stage_items fuel src dst (xs @ ys) s =
     (case stage_items fuel src dst xs s of None \<Rightarrow> None | Some s' \<Rightarrow> stage_items fuel src dst ys s')"
  by (induction xs arbitrary: s) (auto split: option.splits)

lemma stage_items_skip:
  "(\<And>n. n \<in> set ns \<Longrightarrow> \<not> isdir (disk s) (src @ [n]) \<and> \<not> endswith n ''.zip'')
   \<Longrightarrow> stage_items fuel src dst ns s = Some s"
  by (induction ns) (auto simp: stage_item_def Let_def)

lemma copytree_empty:
  assumes "lookup fs src = Some (Dir [])" and "lookup fs d = Some (Dir es)" and "map_of es x = None"
  shows "copytree (Suc k) src (d @ [x]) fs = Some (put_node (d @ [x]) (Dir []) fs, None)"
  by (simp add: listdir_def assms(1) makedirs_child [OF assms(2,3)])

lemma staging_plain_files:
  assumes es: "lookup (disk s) folder = Some (Dir es)"
    and plain: "\<And>n c. (n, c) \<in> set es \<Longrightarrow> \<not> is_dir_node c \<and> \<not> endswith n ''.zip'' \<and> n \<noteq> ''Extracted''"
  shows "\<exists>s1. copy_to_extracted_folder (Suc fuel) folder (folder @ [''Extracted'']) s = Some (Inr s1)
           \<and> lookup (disk s1) (folder @ [''Extracted'']) = Some (Dir [(''Extracted'', Dir [])])
           \<and> log s1 = log s @ [CopiedFolder (folder @ [''Extracted'']) (folder @ [''Extracted'', ''Extracted''])]"
proof -
  let ?E = "''Extracted''"
  let ?fs1 = "put_node (folder @ [?E]) (Dir []) (disk s)"
  let ?fs2 = "put_node ((folder @ [?E]) @ [?E]) (Dir []) ?fs1"
  have noE: "map_of es ?E = None"
  proof (cases "map_of es ?E")
    case (Some c)
    from map_of_SomeD [OF this] plain show ?thesis by blast
  qed simp
  then have absent: "\<not> exists_path (disk s) (folder @ [?E])"
    by (simp add: exists_path_def lookup_child [OF es])
  have ens: "ensure_dir (folder @ [?E]) (disk s) = Inr ?fs1"
    using ensure_dir_child [OF es, of ?E] absent by simp
  have fs1: "?fs1 = put_node folder (Dir (es @ [(?E, Dir [])])) (disk s)"
    by (simp add: put_node_child [OF es] update_absent [OF noE])
  have l1: "lookup ?fs1 folder = Some (Dir (es @ [(?E, Dir [])]))"
    unfolding fs1 using lookup_put_node [OF es, of _ "[]"] by simp
  have items: "listdir ?fs1 folder = Inr (map fst es @ [?E])"
    by (simp add: listdir_def l1)
  have E1: "lookup ?fs1 (folder @ [?E]) = Some (Dir [])"
    using noE by (simp add: lookup_child [OF l1] map_add_def)
  have skip: "\<not> isdir ?fs1 (folder @ [n]) \<and> \<not> endswith n ''.zip''" if "n \<in> set (map fst es)" for n
  proof -
    from that obtain c where c: "map_of es n = Some c"
      by (metis map_of_eq_None_iff not_Some_eq set_map)
    from plain [OF map_of_SomeD [OF c]] have "\<not> is_dir_node c" "\<not> endswith n ''.zip''" by auto
    moreover have "lookup ?fs1 (folder @ [n]) = Some c"
      using c by (simp add: lookup_child [OF l1] map_add_def)
    ultimately show ?thesis by (cases c) (auto simp: isdir_def)
  qed
  have first: "stage_items (Suc fuel) folder (folder @ [?E]) (map fst es) (s\<lparr>disk := ?fs1\<rparr>)
                 = Some (s\<lparr>disk := ?fs1\<rparr>)"
    by (rule stage_items_skip) (use skip in simp)
  have ct: "copytree (Suc fuel) (folder @ [?E]) ((folder @ [?E]) @ [?E]) ?fs1 = Some (?fs2, None)"
    by (rule copytree_empty [OF E1 E1]) simp
  let ?s1 = "update_progress (log_message (CopiedFolder (folder @ [?E]) (folder @ [?E, ?E])) (s\<lparr>disk := ?fs2\<rparr>))"
  have dirE: "isdir ?fs1 (folder @ [?E])" using E1 by (simp add: isdir_def)
  have last: "stage_item (Suc fuel) folder (folder @ [?E]) ?E (s\<lparr>disk := ?fs1\<rparr>) = Some ?s1"
    using dirE ct by (simp add: stage_item_def Let_def del: copytree.simps)
  have run: "copy_to_extracted_folder (Suc fuel) folder (folder @ [?E]) s = Some (Inr ?s1)"
    by (simp add: copy_to_extracted_folder_def ens items stage_items_append first last
        del: stage_item_def copytree.simps)
  have fs2: "?fs2 = put_node (folder @ [?E]) (Dir [(?E, Dir [])]) ?fs1"
    using put_node_child [OF E1, of ?E "Dir []"] by simp
  have "lookup ?fs2 (folder @ [?E]) = Some (Dir [(?E, Dir [])])"
    unfolding fs2 using lookup_put_node [OF E1, of "Dir [(?E, Dir [])]" "[]"] by simp
  then have "lookup (disk ?s1) (folder @ [?E]) = Some (Dir [(?E, Dir [])])" by simp
  moreover have "log ?s1 = log s @ [CopiedFolder (folder @ [?E]) (folder @ [?E, ?E])]"
    by (simp add: update_progress_def log_message_def)
  ultimately show ?thesis using run by blast
qed

section \<open>The sorter\<close>

lemma diverge_sym: "diverge p q \<Longrightarrow> diverge q p"
  unfolding diverge_def by metis

lemma diverge_append: "diverge p q \<Longrightarrow> diverge (p @ r) (q @ r')"
  unfolding diverge_def by (metis append.assoc append_Cons)

lemma diverge_neq: "diverge p q \<Longrightarrow> p \<noteq> q"
  unfolding diverge_def by auto

lemma diverge_children: "x \<noteq> y \<Longrightarrow> diverge (a @ [x]) (a @ [y])"
  unfolding diverge_def by blast

lemma put_node_diverge_aux:
  "x \<noteq> y \<Longrightarrow> lookup (put_node (a @ x # p) v fs) (a @ y # q) = lookup fs (a @ y # q)"
proof (induction a arbitrary: fs)
  case Nil
  then show ?case by (cases fs) (auto simp: update_conv' split: option.splits)
next
  case (Cons z a)
  show ?case
  proof (cases fs)
    case (Dir es)
    show ?thesis
    proof (cases "map_of es z")
      case None
      with Dir show ?thesis by simp
    next
      case (Some c)
      with Dir Cons.IH [OF Cons.prems, of c] show ?thesis by (simp add: update_conv')
    qed
  qed simp_all
qed

lemma put_node_diverge: "diverge t q \<Longrightarrow> lookup (put_node t v fs) q = lookup fs q"
  unfolding diverge_def using put_node_diverge_aux by blast

lemma lookup_put_child:
  assumes "isdir fs p"
  shows "lookup (put_node (p @ [x]) v fs) (p @ [y]) = (if y = x then Some v else lookup fs (p @ [y]))"
    and "isdir (put_node (p @ [x]) v fs) p"
proof -
  from isdir_lookup [OF assms] obtain es where es: "lookup fs p = Some (Dir es)" by blast
  have eq: "put_node (p @ [x]) v fs = put_node p (Dir (AList.update x v es)) fs"
    by (rule put_node_child [OF es])
  show "lookup (put_node (p @ [x]) v fs) (p @ [y]) = (if y = x then Some v else lookup fs (p @ [y]))"
    unfolding eq using lookup_put_node [OF es, of "Dir (AList.update x v es)" "[y]"]
    by (simp add: update_conv' lookup_child [OF es])
  show "isdir (put_node (p @ [x]) v fs) p"
    unfolding eq using lookup_put_node [OF es, of "Dir (AList.update x v es)" "[]"]
    by (simp add: isdir_def)
qed

text \<open>Copying a regular file into a directory that has no directory of its name.\<close>

lemma shutil_copy_into:
  assumes "lookup fs src = Some c" and "\<not> is_dir_node c" and "src \<noteq> []" and "isdir fs dst"
    and "\<not> isdir fs (dst @ [last src])" and "src \<noteq> dst @ [last src]"
  shows "shutil_copy src dst fs = Inr (put_node (dst @ [last src]) c fs)"
proof -
  have "exists_path fs dst" using assms(4) by (auto simp: isdir_def exists_path_def split: option.splits)
  then show ?thesis using assms
    by (cases c) (simp_all add: shutil_copy_def copyfile_def)
qed

lemma shutil_copy_no_file:
  "\<not> isfile fs src \<Longrightarrow> \<exists>e. shutil_copy src dst fs = Inl e"
  by (auto simp: shutil_copy_def copyfile_def isfile_def split: option.splits node.splits)

lemma fold_establish:
  assumes inv: "\<And>x s. x \<in> set xs \<Longrightarrow> I s \<Longrightarrow> I (step x s)"
    and est: "\<And>x s. x \<in> set xs \<Longrightarrow> I s \<Longrightarrow> Q (key x) (step x s)"
    and stab: "\<And>x y s. x \<in> set xs \<Longrightarrow> I s \<Longrightarrow> Q y s \<Longrightarrow> Q y (step x s)"
  shows "I s \<Longrightarrow> I (fold step xs s) \<and> (\<forall>x \<in> set xs. Q (key x) (fold step xs s))
                 \<and> (\<forall>y. Q y s \<longrightarrow> Q y (fold step xs s))"
  using assms
proof (induction xs arbitrary: s)
  case Nil
  then show ?case by simp
next
  case (Cons x xs)
  have I1: "I (step x s)" using Cons.prems by simp
  have IH: "I (fold step xs (step x s)) \<and> (\<forall>x' \<in> set xs. Q (key x') (fold step xs (step x s)))
            \<and> (\<forall>y. Q y (step x s) \<longrightarrow> Q y (fold step xs (step x s)))"
    by (rule Cons.IH [OF I1]) (use Cons.prems in auto)
  have "Q (key x) (step x s)" using Cons.prems by simp
  with IH have "Q (key x) (fold step xs (step x s))" by blast
  moreover have "\<forall>y. Q y s \<longrightarrow> Q y (fold step xs (step x s))"
    using IH Cons.prems(4) [of x s] Cons.prems(1) by auto
  ultimately show ?case using IH by simp
qed

lemma walk_subset:
  "(x, c) \<in> set es \<Longrightarrow> set (walk (p @ [x]) c) \<subseteq> set (walk_entries p es)"
  by (induction es) auto

lemma walk_complete:
  "lookup n r = Some (Dir es) \<Longrightarrow> p @ r \<in> fst ` set (walk p n)"
proof (induction r arbitrary: p n)
  case Nil
  then show ?case by force
next
  case (Cons x r)
  then obtain es' c where n: "n = Dir es'" and c: "map_of es' x = Some c"
    and l: "lookup c r = Some (Dir es)"
    by (cases n) (auto split: option.splits)
  from Cons.IH [OF l, of "p @ [x]"] have "p @ x # r \<in> fst ` set (walk (p @ [x]) c)" by simp
  with walk_subset [OF map_of_SomeD [OF c], of p] show ?case unfolding n by auto
qed

lemma walk_sound:
  "t \<in> set (walk p n) \<Longrightarrow> prefix p (fst t)"
  "t \<in> set (walk_entries p es) \<Longrightarrow> prefix p (fst t)"
proof (induction p n and p es rule: walk_walk_entries.induct)
  case (6 dirpath n c es)
  then show ?case by (auto dest: append_prefixD)
qed auto

lemma os_walk_complete:
  "isdir fs (root @ r) \<Longrightarrow> root @ r \<in> set (map fst (os_walk fs root))"
proof -
  assume "isdir fs (root @ r)"
  then obtain es where es: "lookup fs (root @ r) = Some (Dir es)" using isdir_lookup by blast
  then obtain n where n: "lookup fs root = Some n" and r: "lookup n r = Some (Dir es)"
    by (auto simp: lookup_append split: option.splits)
  from walk_complete [OF r, of root] show ?thesis by (simp add: os_walk_def n)
qed

lemma os_walk_sound:
  "d \<in> set (map fst (os_walk fs root)) \<Longrightarrow> \<exists>r. d = root @ r"
  by (auto simp: os_walk_def prefix_def split: option.splits dest!: walk_sound(1))

lemma nondirs_member:
  "isfile fs (d @ [f]) \<Longrightarrow> f \<in> set (nondirs fs d)"
proof -
  assume f: "isfile fs (d @ [f])"
  then obtain n where n: "lookup fs d = Some n" and "lookup n [f] \<noteq> None"
    by (auto simp: isfile_def lookup_append split: option.splits)
  then obtain es where es: "n = Dir es" by (cases n) auto
  with f n obtain c where c: "map_of es f = Some c" "\<not> is_dir_node c"
    by (auto simp: isfile_def lookup_append split: option.splits node.splits)
  from map_of_SomeD [OF c(1)] c(2) have "(f, c) \<in> set (filter (\<lambda>(n, c). case c of Dir cs \<Rightarrow> False | _ \<Rightarrow> True) es)"
    by (cases c) auto
  then show ?thesis using n es by (force simp: nondirs_def)
qed

lemma nondirs_cong: "lookup fs d = lookup fs' d \<Longrightarrow> nondirs fs d = nondirs fs' d"
  by (simp add: nondirs_def)

lemma pdf_not_csv: "endswith f ''.pdf'' \<Longrightarrow> \<not> endswith f ''.csv''"
  by (auto simp: endswith_def)

lemma isfile_cong: "lookup fs p = lookup fs' p \<Longrightarrow> isfile fs p = isfile fs' p"
  by (simp add: isfile_def)

lemma isdir_cong: "lookup fs p = lookup fs' p \<Longrightarrow> isdir fs p = isdir fs' p"
  by (simp add: isdir_def)


lemma copy_result_cases:
  assumes dv: "diverge root dest"
    and src: "\<And>r. lookup fs (root @ r) = lookup fs0 (root @ r)"
    and dest: "isdir fs dest" "\<And>g. \<not> isdir fs (dest @ [g])"
  shows "(\<not> isfile fs0 (root @ r @ [f]) \<and> copy_result (root @ r @ [f]) dest fs = fs)
       \<or> (\<exists>c. lookup fs0 (root @ r @ [f]) = Some c \<and> \<not> is_dir_node c \<and> isfile fs0 (root @ r @ [f])
              \<and> copy_result (root @ r @ [f]) dest fs = put_node (dest @ [f]) c fs)"
proof (cases "isfile fs (root @ r @ [f])")
  case False
  from shutil_copy_no_file [OF this, of dest] obtain e where
    "shutil_copy (root @ r @ [f]) dest fs = Inl e" by blast
  then have "copy_result (root @ r @ [f]) dest fs = fs"
    by (simp add: copy_result_def)
  moreover from False have "\<not> isfile fs0 (root @ r @ [f])"
    using isfile_cong [OF src [of "r @ [f]"]] by simp
  ultimately show ?thesis by simp
next
  case True
  then obtain c where c: "lookup fs (root @ r @ [f]) = Some c" "\<not> is_dir_node c"
    by (auto simp: isfile_def split: option.splits node.splits)
  have ne: "root @ r @ [f] \<noteq> dest @ [last (root @ r @ [f])]"
    using diverge_neq [OF diverge_append [OF dv, of "r @ [f]" "[f]"]] by simp
  have "shutil_copy (root @ r @ [f]) dest fs = Inr (put_node (dest @ [last (root @ r @ [f])]) c fs)"
    by (rule shutil_copy_into [OF c _ dest(1) _ ne]) (use dest(2) in simp_all)
  then have "copy_result (root @ r @ [f]) dest fs = put_node (dest @ [f]) c fs"
    by (simp add: copy_result_def)
  moreover have "lookup fs0 (root @ r @ [f]) = Some c" using c(1) src [of "r @ [f]"] by simp
  moreover have "isfile fs0 (root @ r @ [f])"
    using True isfile_cong [OF src [of "r @ [f]"]] by simp
  ultimately show ?thesis using c(2) by blast
qed

lemma copy_result_props:
  fixes r :: path and f :: string
  assumes dv: "diverge root dest"
    and src: "\<And>r. lookup fs (root @ r) = lookup fs0 (root @ r)"
    and dest: "isdir fs dest" "\<And>g. \<not> isdir fs (dest @ [g])"
  defines "fs' \<equiv> copy_result (root @ r @ [f]) dest fs"
  shows "lookup fs' (root @ r') = lookup fs0 (root @ r')"
    and "isdir fs' dest" and "\<not> isdir fs' (dest @ [g])"
    and "diverge dest q \<Longrightarrow> lookup fs' q = lookup fs q"
    and "g \<noteq> f \<Longrightarrow> lookup fs' (dest @ [g]) = lookup fs (dest @ [g])"
    and "lookup fs' (dest @ [f]) = lookup fs (dest @ [f])
         \<or> (isfile fs0 (root @ r @ [f]) \<and> lookup fs' (dest @ [f]) = lookup fs0 (root @ r @ [f]))"
    and "isfile fs0 (root @ r @ [f]) \<Longrightarrow> lookup fs' (dest @ [f]) = lookup fs0 (root @ r @ [f])"
proof -
  from copy_result_cases [OF dv src dest, of r f]
  consider (same) "\<not> isfile fs0 (root @ r @ [f])" "fs' = fs"
    | (put) c where "lookup fs0 (root @ r @ [f]) = Some c" "\<not> is_dir_node c"
        "isfile fs0 (root @ r @ [f])" "fs' = put_node (dest @ [f]) c fs"
    unfolding fs'_def by blast
  note cases = this
  have d1: "diverge (dest @ [f]) (root @ r')" for r'
    using diverge_append [OF diverge_sym [OF dv]] .
  show "lookup fs' (root @ r') = lookup fs0 (root @ r')"
    by (cases rule: cases) (simp_all add: src put_node_diverge [OF d1])
  show "isdir fs' dest"
    by (cases rule: cases) (simp_all add: dest lookup_put_child(2) [OF dest(1)])
  show "\<not> isdir fs' (dest @ [g])"
  proof (cases rule: cases)
    case same
    then show ?thesis by (simp add: dest)
  next
    case (put c)
    then show ?thesis using dest(2) [of g]
      by (cases c) (auto simp: isdir_def lookup_put_child(1) [OF dest(1)])
  qed
  show "lookup fs' q = lookup fs q" if "diverge dest q"
  proof (cases rule: cases)
    case same
    then show ?thesis by simp
  next
    case (put c)
    from diverge_append [OF that, of "[f]" "[]"] have "diverge (dest @ [f]) q" by simp
    then show ?thesis using put by (simp add: put_node_diverge)
  qed
  show "lookup fs' (dest @ [g]) = lookup fs (dest @ [g])" if "g \<noteq> f"
    using that by (cases rule: cases) (simp_all add: lookup_put_child(1) [OF dest(1)])
  show "lookup fs' (dest @ [f]) = lookup fs (dest @ [f])
         \<or> (isfile fs0 (root @ r @ [f]) \<and> lookup fs' (dest @ [f]) = lookup fs0 (root @ r @ [f]))"
    by (cases rule: cases) (simp_all add: lookup_put_child(1) [OF dest(1)])
  show "lookup fs' (dest @ [f]) = lookup fs0 (root @ r @ [f])" if "isfile fs0 (root @ r @ [f])"
    using that by (cases rule: cases) (simp_all add: lookup_put_child(1) [OF dest(1)])
qed

lemma sort_handler_disk [simp]: "disk (sort_handler e p s) = disk s"
  by (simp add: sort_handler_def split: error.splits)

lemma sort_file_disk:
  "disk (sort_file csv pdf d f s) =
     (if endswith f ''.csv'' then copy_result (d @ [f]) csv (disk s)
      else if endswith f ''.pdf'' then copy_result (d @ [f]) pdf (disk s)
      else disk s)"
  by (simp add: sort_file_def copy_result_def Let_def split: sum.splits)

lemma copied_cong:
  "lookup fs' (dest @ [g]) = lookup fs (dest @ [g]) \<Longrightarrow>
   copied fs0 root dest g fs' = copied fs0 root dest g fs"
  by (simp add: copied_def)

lemma copy_result_copied:
  fixes r :: path and f :: string
  assumes dv: "diverge root dest"
    and src: "\<And>r. lookup fs (root @ r) = lookup fs0 (root @ r)"
    and dest: "isdir fs dest" "\<And>g. \<not> isdir fs (dest @ [g])"
  shows "isfile fs0 (root @ r @ [f]) \<Longrightarrow> copied fs0 root dest f (copy_result (root @ r @ [f]) dest fs)"
    and "copied fs0 root dest g fs \<Longrightarrow> copied fs0 root dest g (copy_result (root @ r @ [f]) dest fs)"
    and "diverge dest other \<Longrightarrow>
         copied fs0 root other g (copy_result (root @ r @ [f]) dest fs) = copied fs0 root other g fs"
proof -
  note props = copy_result_props [OF dv src dest, where r = r and f = f]
  show "copied fs0 root dest f (copy_result (root @ r @ [f]) dest fs)" if "isfile fs0 (root @ r @ [f])"
    unfolding copied_def using props(7) [OF that] that by blast
  show "copied fs0 root dest g (copy_result (root @ r @ [f]) dest fs)" if c: "copied fs0 root dest g fs"
  proof (cases "g = f")
    case False
    from props(5) [OF this] c show ?thesis by (simp add: copied_def)
  next
    case True
    from props(6) show ?thesis
    proof
      assume "lookup (copy_result (root @ r @ [f]) dest fs) (dest @ [f]) = lookup fs (dest @ [f])"
      with c True show ?thesis by (simp add: copied_def)
    next
      assume "isfile fs0 (root @ r @ [f])
              \<and> lookup (copy_result (root @ r @ [f]) dest fs) (dest @ [f]) = lookup fs0 (root @ r @ [f])"
      with True show ?thesis unfolding copied_def by blast
    qed
  qed
  show "copied fs0 root other g (copy_result (root @ r @ [f]) dest fs) = copied fs0 root other g fs"
    if "diverge dest other"
  proof -
    from diverge_append [OF that, of "[]" "[g]"] have "diverge dest (other @ [g])" by simp
    from props(4) [OF this] show ?thesis by (rule copied_cong)
  qed
qed

lemma copy_result_sorted_from:
  fixes r :: path and f :: string
  assumes dv: "diverge root dest"
    and src: "\<And>r. lookup fs (root @ r) = lookup fs0 (root @ r)"
    and dest: "isdir fs dest" "\<And>g. \<not> isdir fs (dest @ [g])"
  shows "sorted_from fs0 root dest suf fs \<Longrightarrow> endswith f suf
         \<Longrightarrow> sorted_from fs0 root dest suf (copy_result (root @ r @ [f]) dest fs)"
    and "diverge dest other \<Longrightarrow> sorted_from fs0 root other suf' fs
         \<Longrightarrow> sorted_from fs0 root other suf' (copy_result (root @ r @ [f]) dest fs)"
proof -
  note props = copy_result_props [OF dv src dest, where r = r and f = f]
  note cop = copy_result_copied [OF dv src dest, where r = r and f = f]
  let ?fs' = "copy_result (root @ r @ [f]) dest fs"
  show "sorted_from fs0 root dest suf ?fs'" if sf: "sorted_from fs0 root dest suf fs" and suf: "endswith f suf"
    unfolding sorted_from_def
  proof
    fix g
    from sf have old: "lookup fs (dest @ [g]) = lookup fs0 (dest @ [g])
          \<or> (endswith g suf \<and> copied fs0 root dest g fs)"
      by (simp add: sorted_from_def)
    show "lookup ?fs' (dest @ [g]) = lookup fs0 (dest @ [g]) \<or> (endswith g suf \<and> copied fs0 root dest g ?fs')"
    proof (cases "g = f")
      case False
      from props(5) [OF this] old cop(2) [where g = g] show ?thesis by auto
    next
      case True
      from props(6) show ?thesis
      proof
        assume "lookup ?fs' (dest @ [f]) = lookup fs (dest @ [f])"
        with old True cop(2) [where g = g] show ?thesis by auto
      next
        assume "isfile fs0 (root @ r @ [f]) \<and> lookup ?fs' (dest @ [f]) = lookup fs0 (root @ r @ [f])"
        with cop(1) suf True show ?thesis by simp
      qed
    qed
  qed
  show "sorted_from fs0 root other suf' ?fs'" if dv': "diverge dest other"
    and sf: "sorted_from fs0 root other suf' fs"
    unfolding sorted_from_def
  proof
    fix g
    from diverge_append [OF dv', of "[]" "[g]"] have "diverge dest (other @ [g])" by simp
    from props(4) [OF this] have "lookup ?fs' (other @ [g]) = lookup fs (other @ [g])" .
    with sf cop(3) [OF dv', where g = g]
    show "lookup ?fs' (other @ [g]) = lookup fs0 (other @ [g])
          \<or> (endswith g suf' \<and> copied fs0 root other g ?fs')"
      by (simp add: sorted_from_def)
  qed
qed

lemma copy_result_sort_inv:
  fixes r :: path and f :: string
  assumes dv: "diverge root csv" "diverge root pdf" "diverge csv pdf"
    and inv: "sort_inv fs0 root csv pdf fs"
  shows "endswith f ''.csv'' \<Longrightarrow> sort_inv fs0 root csv pdf (copy_result (root @ r @ [f]) csv fs)"
    and "endswith f ''.pdf'' \<Longrightarrow> sort_inv fs0 root csv pdf (copy_result (root @ r @ [f]) pdf fs)"
proof -
  from inv have src: "\<And>r. lookup fs (root @ r) = lookup fs0 (root @ r)"
    and c: "isdir fs csv" "\<And>g. \<not> isdir fs (csv @ [g])"
    and p: "isdir fs pdf" "\<And>g. \<not> isdir fs (pdf @ [g])"
    and sc: "sorted_from fs0 root csv ''.csv'' fs" and sp: "sorted_from fs0 root pdf ''.pdf'' fs"
    by (simp_all add: sort_inv_def)
  have dpg: "diverge csv (pdf @ [g])" for g using diverge_append [OF dv(3), of "[]" "[g]"] by simp
  have dcg: "diverge pdf (csv @ [g])" for g
    using diverge_append [OF diverge_sym [OF dv(3)], of "[]" "[g]"] by simp
  show "sort_inv fs0 root csv pdf (copy_result (root @ r @ [f]) csv fs)" if "endswith f ''.csv''"
  proof -
    note props = copy_result_props [OF dv(1) src c, where r = r and f = f]
    note sf = copy_result_sorted_from [OF dv(1) src c, where r = r and f = f]
    have "isdir (copy_result (root @ r @ [f]) csv fs) pdf"
      using isdir_cong [OF props(4) [OF dv(3)]] p(1) by simp
    moreover have "\<not> isdir (copy_result (root @ r @ [f]) csv fs) (pdf @ [g])" for g
      using isdir_cong [OF props(4) [OF dpg]] p(2) by simp
    ultimately show ?thesis
      unfolding sort_inv_def
      using props(1,2,3) sf(1) [OF sc that] sf(2) [OF dv(3) sp] by simp
  qed
  show "sort_inv fs0 root csv pdf (copy_result (root @ r @ [f]) pdf fs)" if "endswith f ''.pdf''"
  proof -
    note props = copy_result_props [OF dv(2) src p, where r = r and f = f]
    note sf = copy_result_sorted_from [OF dv(2) src p, where r = r and f = f]
    have "isdir (copy_result (root @ r @ [f]) pdf fs) csv"
      using isdir_cong [OF props(4) [OF diverge_sym [OF dv(3)]]] c(1) by simp
    moreover have "\<not> isdir (copy_result (root @ r @ [f]) pdf fs) (csv @ [g])" for g
      using isdir_cong [OF props(4) [OF dcg]] c(2) by simp
    ultimately show ?thesis
      unfolding sort_inv_def
      using props(1,2,3) sf(1) [OF sp that] sf(2) [OF diverge_sym [OF dv(3)] sc] by simp
  qed
qed

text \<open>What one file of the walk does to the invariant and to the copies made so far.\<close>

lemma sort_file_step:
  fixes r :: path and f :: string
  assumes dv: "diverge root csv" "diverge root pdf" "diverge csv pdf"
    and inv: "sort_inv fs0 root csv pdf (disk s)"
  defines "s' \<equiv> sort_file csv pdf (root @ r) f s"
  shows "sort_inv fs0 root csv pdf (disk s')"
    and "isfile fs0 (root @ r @ [f]) \<Longrightarrow> endswith f ''.csv'' \<Longrightarrow> copied fs0 root csv f (disk s')"
    and "isfile fs0 (root @ r @ [f]) \<Longrightarrow> endswith f ''.pdf'' \<Longrightarrow> copied fs0 root pdf f (disk s')"
    and "copied fs0 root csv g (disk s) \<Longrightarrow> copied fs0 root csv g (disk s')"
    and "copied fs0 root pdf g (disk s) \<Longrightarrow> copied fs0 root pdf g (disk s')"
proof -
  from inv have src: "\<And>r. lookup (disk s) (root @ r) = lookup fs0 (root @ r)"
    and c: "isdir (disk s) csv" "\<And>g. \<not> isdir (disk s) (csv @ [g])"
    and p: "isdir (disk s) pdf" "\<And>g. \<not> isdir (disk s) (pdf @ [g])"
    by (simp_all add: sort_inv_def)
  note cc = copy_result_copied [OF dv(1) src c, where r = r and f = f]
  note cp = copy_result_copied [OF dv(2) src p, where r = r and f = f]
  have d: "disk s' =
     (if endswith f ''.csv'' then copy_result (root @ r @ [f]) csv (disk s)
      else if endswith f ''.pdf'' then copy_result (root @ r @ [f]) pdf (disk s)
      else disk s)"
    by (simp add: s'_def sort_file_disk)
  show "sort_inv fs0 root csv pdf (disk s')"
    unfolding d using copy_result_sort_inv [OF dv inv, where r = r and f = f] inv by simp
  show "copied fs0 root csv f (disk s')" if "isfile fs0 (root @ r @ [f])" "endswith f ''.csv''"
    unfolding d using cc(1) that by simp
  show "copied fs0 root pdf f (disk s')" if "isfile fs0 (root @ r @ [f])" "endswith f ''.pdf''"
    unfolding d using cp(1) that pdf_not_csv by simp
  show "copied fs0 root csv g (disk s')" if "copied fs0 root csv g (disk s)"
    unfolding d using cc(2) [OF that] cp(3) [OF diverge_sym [OF dv(3)], where g = g] that by simp
  show "copied fs0 root pdf g (disk s')" if "copied fs0 root pdf g (disk s)"
    unfolding d using cp(2) [OF that] cc(3) [OF dv(3), where g = g] that by simp
qed

lemma sort_file_owed:
  fixes r :: path and f :: string
  assumes dv: "diverge root csv" "diverge root pdf" "diverge csv pdf"
    and inv: "sort_inv fs0 root csv pdf (disk s)"
  shows "owed fs0 root csv pdf r f (disk (sort_file csv pdf (root @ r) f s))"
    and "owed fs0 root csv pdf r' g (disk s)
         \<Longrightarrow> owed fs0 root csv pdf r' g (disk (sort_file csv pdf (root @ r) f s))"
  using sort_file_step(2,3) [OF dv inv, where r = r and f = f]
    sort_file_step(4,5) [OF dv inv, where r = r and f = f and g = g]
  by (auto simp: owed_def)

lemma sort_files_fold:
  fixes r :: path
  assumes dv: "diverge root csv" "diverge root pdf" "diverge csv pdf"
    and inv: "sort_inv fs0 root csv pdf (disk s)"
  shows "sort_inv fs0 root csv pdf (disk (fold (sort_file csv pdf (root @ r)) fl s))
       \<and> (\<forall>f \<in> set fl. (\<lambda>(r', g) t. owed fs0 root csv pdf r' g (disk t)) (r, f)
                           (fold (sort_file csv pdf (root @ r)) fl s))
       \<and> (\<forall>y. (\<lambda>(r', g) t. owed fs0 root csv pdf r' g (disk t)) y s \<longrightarrow>
               (\<lambda>(r', g) t. owed fs0 root csv pdf r' g (disk t)) y (fold (sort_file csv pdf (root @ r)) fl s))"
proof (rule fold_establish [where I = "\<lambda>t::state. sort_inv fs0 root csv pdf (disk t)"])
  show "sort_inv fs0 root csv pdf (disk s)" by (rule inv)
next
  fix f and t :: state assume "sort_inv fs0 root csv pdf (disk t)"
  then show "sort_inv fs0 root csv pdf (disk (sort_file csv pdf (root @ r) f t))"
    by (rule sort_file_step(1) [OF dv])
next
  fix f and t :: state assume "sort_inv fs0 root csv pdf (disk t)"
  from sort_file_owed(1) [OF dv this]
  show "(\<lambda>(r', g) t. owed fs0 root csv pdf r' g (disk t)) (r, f) (sort_file csv pdf (root @ r) f t)"
    by simp
next
  fix f y and t :: state assume i: "sort_inv fs0 root csv pdf (disk t)"
    and q: "(\<lambda>(r', g) t. owed fs0 root csv pdf r' g (disk t)) y t"
  obtain r' g where y: "y = (r', g)" by force
  from sort_file_owed(2) [OF dv i] q
  show "(\<lambda>(r', g) t. owed fs0 root csv pdf r' g (disk t)) y (sort_file csv pdf (root @ r) f t)"
    by (simp add: y)
qed

lemma sort_directory_step:
  fixes r :: path
  assumes dv: "diverge root csv" "diverge root pdf" "diverge csv pdf"
    and inv: "sort_inv fs0 root csv pdf (disk s)"
  shows "sort_inv fs0 root csv pdf (disk (sort_directory csv pdf (root @ r) s))"
    and "f \<in> set (nondirs fs0 (root @ r))
         \<Longrightarrow> owed fs0 root csv pdf r f (disk (sort_directory csv pdf (root @ r) s))"
    and "owed fs0 root csv pdf r' g (disk s)
         \<Longrightarrow> owed fs0 root csv pdf r' g (disk (sort_directory csv pdf (root @ r) s))"
proof -
  from inv have "lookup (disk s) (root @ r) = lookup fs0 (root @ r)" by (simp add: sort_inv_def)
  then have files: "nondirs (disk s) (root @ r) = nondirs fs0 (root @ r)" by (rule nondirs_cong)
  note all = sort_files_fold [OF dv inv, where r = r and fl = "nondirs fs0 (root @ r)"]
  show "sort_inv fs0 root csv pdf (disk (sort_directory csv pdf (root @ r) s))"
    using all by (simp add: sort_directory_def files)
  show "owed fs0 root csv pdf r f (disk (sort_directory csv pdf (root @ r) s))"
    if "f \<in> set (nondirs fs0 (root @ r))"
    using all that by (auto simp: sort_directory_def files)
  show "owed fs0 root csv pdf r' g (disk (sort_directory csv pdf (root @ r) s))"
    if "owed fs0 root csv pdf r' g (disk s)"
    using all that by (auto simp: sort_directory_def files)
qed

lemma sort_directories_fold:
  assumes dv: "diverge root csv" "diverge root pdf" "diverge csv pdf"
    and inv: "sort_inv fs0 root csv pdf (disk s)"
    and ds: "\<And>d. d \<in> set ds \<Longrightarrow> \<exists>r. d = root @ r"
  shows "sort_inv fs0 root csv pdf (disk (fold (sort_directory csv pdf) ds s))
       \<and> (\<forall>d \<in> set ds. (\<lambda>d t. \<forall>r f. d = root @ r \<and> f \<in> set (nondirs fs0 d)
                                  \<longrightarrow> owed fs0 root csv pdf r f (disk t)) d
                           (fold (sort_directory csv pdf) ds s))
       \<and> (\<forall>y. (\<lambda>d t. \<forall>r f. d = root @ r \<and> f \<in> set (nondirs fs0 d)
                        \<longrightarrow> owed fs0 root csv pdf r f (disk t)) y s \<longrightarrow>
               (\<lambda>d t. \<forall>r f. d = root @ r \<and> f \<in> set (nondirs fs0 d)
                        \<longrightarrow> owed fs0 root csv pdf r f (disk t)) y (fold (sort_directory csv pdf) ds s))"
proof (rule fold_establish [where I = "\<lambda>t::state. sort_inv fs0 root csv pdf (disk t)" and key = "\<lambda>d. d"])
  show "sort_inv fs0 root csv pdf (disk s)" by (rule inv)
next
  fix d and t :: state assume "d \<in> set ds" and i: "sort_inv fs0 root csv pdf (disk t)"
  with ds obtain r where d: "d = root @ r" by blast
  show "sort_inv fs0 root csv pdf (disk (sort_directory csv pdf d t))"
    unfolding d by (rule sort_directory_step(1) [OF dv i])
next
  fix d and t :: state assume "d \<in> set ds" and i: "sort_inv fs0 root csv pdf (disk t)"
  show "\<forall>r f. d = root @ r \<and> f \<in> set (nondirs fs0 d)
              \<longrightarrow> owed fs0 root csv pdf r f (disk (sort_directory csv pdf d t))"
    using sort_directory_step(2) [OF dv i] by auto
next
  fix d y and t :: state assume "d \<in> set ds" and i: "sort_inv fs0 root csv pdf (disk t)"
    and q: "\<forall>r f. y = root @ r \<and> f \<in> set (nondirs fs0 y) \<longrightarrow> owed fs0 root csv pdf r f (disk t)"
  with ds obtain r where d: "d = root @ r" by blast
  show "\<forall>r f. y = root @ r \<and> f \<in> set (nondirs fs0 y)
              \<longrightarrow> owed fs0 root csv pdf r f (disk (sort_directory csv pdf d t))"
    unfolding d using sort_directory_step(3) [OF dv i] q by blast
qed

text \<open>The walk of the sorter from a state that satisfies the invariant.\<close>

lemma sort_walk:
  assumes dv: "diverge root csv" "diverge root pdf" "diverge csv pdf"
    and inv: "sort_inv fs0 root csv pdf (disk s)"
  defines "s' \<equiv> fold (sort_directory csv pdf) (map fst (os_walk (disk s) root)) s"
  shows "sort_inv fs0 root csv pdf (disk s')"
    and "isfile fs0 (root @ r @ [f]) \<Longrightarrow> owed fs0 root csv pdf r f (disk s')"
proof -
  have ds: "\<exists>r. d = root @ r" if "d \<in> set (map fst (os_walk (disk s) root))" for d
    using os_walk_sound [OF that] .
  note all = sort_directories_fold [OF dv inv ds, of "map fst (os_walk (disk s) root)"]
  show "sort_inv fs0 root csv pdf (disk s')" using all unfolding s'_def by blast
  show "owed fs0 root csv pdf r f (disk s')" if f: "isfile fs0 (root @ r @ [f])"
  proof -
    from inv have src: "lookup (disk s) (root @ r) = lookup fs0 (root @ r)" by (simp add: sort_inv_def)
    from f have "isfile fs0 ((root @ r) @ [f])" by simp
    from nondirs_member [OF this] have m: "f \<in> set (nondirs fs0 (root @ r))" .
    from f have "isdir fs0 (root @ r)"
      by (auto simp: isfile_def isdir_def lookup_append [of fs0 "root @ r" "[f]", simplified]
          split: option.splits node.splits)
    then have "isdir (disk s) (root @ r)" using isdir_cong [OF src] by simp
    from os_walk_complete [OF this] have "root @ r \<in> set (map fst (os_walk (disk s) root))" .
    with all m show ?thesis unfolding s'_def by blast
  qed
qed

lemma diverge_right: "diverge p q \<Longrightarrow> diverge p (q @ r)"
  using diverge_append [of p q "[]" r] by simp

lemma absent_child: "\<not> exists_path fs p \<Longrightarrow> lookup fs (p @ q) = None"
  by (simp add: exists_path_def lookup_append)

text \<open>Creating a folder of the sorter where none or an empty kind of directory is.\<close>

lemma ensure_sorted_dir:
  assumes mp: "isdir fs mp" and nf: "\<not> isfile fs (mp @ [x])"
  obtains fs' where "ensure_dir (mp @ [x]) fs = Inr fs'"
    and "isdir fs' (mp @ [x])" and "isdir fs' mp"
    and "\<And>f. lookup fs' ((mp @ [x]) @ [f]) = lookup fs ((mp @ [x]) @ [f])"
    and "\<And>q. diverge (mp @ [x]) q \<Longrightarrow> lookup fs' q = lookup fs q"
proof (cases "exists_path fs (mp @ [x])")
  case True
  from isdir_lookup [OF mp] obtain es where es: "lookup fs mp = Some (Dir es)" by blast
  from True nf have "isdir fs (mp @ [x])"
    by (auto simp: exists_path_def isfile_def isdir_def split: option.splits node.splits)
  with True mp show ?thesis
    using that [of fs] by (simp add: ensure_dir_def)
next
  case False
  from isdir_lookup [OF mp] obtain es where es: "lookup fs mp = Some (Dir es)" by blast
  let ?fs' = "put_node (mp @ [x]) (Dir []) fs"
  have 1: "ensure_dir (mp @ [x]) fs = Inr ?fs'" using ensure_dir_child [OF es, of x] False by simp
  have l: "lookup ?fs' (mp @ [x]) = Some (Dir [])" using lookup_put_child(1) [OF mp, of x _ x] by simp
  then have 2: "isdir ?fs' (mp @ [x])" by (simp add: isdir_def)
  have 3: "isdir ?fs' mp" by (rule lookup_put_child(2) [OF mp])
  have 4: "lookup ?fs' ((mp @ [x]) @ [f]) = lookup fs ((mp @ [x]) @ [f])" for f
    using absent_child [OF False, of "[f]"] lookup_append [of ?fs' "mp @ [x]" "[f]"] l by simp
  have 5: "lookup ?fs' q = lookup fs q" if "diverge (mp @ [x]) q" for q
    by (rule put_node_diverge [OF that])
  from that [OF 1 2 3 4 5] show ?thesis .
qed

lemma organize_sorts:
  assumes dv: "diverge root mp"
    and mp: "isdir (disk s) mp"
    and csv: "\<not> isfile (disk s) (mp @ [''All_CSVs''])" "\<And>f. \<not> isdir (disk s) ((mp @ [''All_CSVs'']) @ [f])"
    and pdf: "\<not> isfile (disk s) (mp @ [''All_PDFs''])" "\<And>f. \<not> isdir (disk s) ((mp @ [''All_PDFs'']) @ [f])"
  obtains s' where "organize_files_by_extension root mp s = Inr s'"
    and "sort_inv (disk s) root (mp @ [''All_CSVs'']) (mp @ [''All_PDFs'']) (disk s')"
    and "\<And>r f. isfile (disk s) (root @ r @ [f])
           \<Longrightarrow> owed (disk s) root (mp @ [''All_CSVs'']) (mp @ [''All_PDFs'']) r f (disk s')"
proof -
  let ?csv = "mp @ [''All_CSVs'']" and ?pdf = "mp @ [''All_PDFs'']"
  have dcp: "diverge ?csv ?pdf" by (rule diverge_children) simp
  have drc: "diverge root ?csv" by (rule diverge_right [OF dv])
  have drp: "diverge root ?pdf" by (rule diverge_right [OF dv])
  from ensure_sorted_dir [OF mp csv(1)] obtain fs1 where
    e1: "ensure_dir ?csv (disk s) = Inr fs1" and c1: "isdir fs1 ?csv" and m1: "isdir fs1 mp"
    and k1: "\<And>f. lookup fs1 (?csv @ [f]) = lookup (disk s) (?csv @ [f])"
    and d1: "\<And>q. diverge ?csv q \<Longrightarrow> lookup fs1 q = lookup (disk s) q"
    by blast
  have "\<not> isfile fs1 ?pdf" using isfile_cong [OF d1 [OF dcp]] pdf(1) by simp
  from ensure_sorted_dir [OF m1 this] obtain fs2 where
    e2: "ensure_dir ?pdf fs1 = Inr fs2" and p2: "isdir fs2 ?pdf"
    and k2: "\<And>f. lookup fs2 (?pdf @ [f]) = lookup fs1 (?pdf @ [f])"
    and d2: "\<And>q. diverge ?pdf q \<Longrightarrow> lookup fs2 q = lookup fs1 q"
    by blast
  have dpc: "diverge ?pdf (?csv @ q)" for q
    by (rule diverge_right [OF diverge_sym [OF dcp]])
  have dcpq: "diverge ?csv (?pdf @ q)" for q
    by (rule diverge_right [OF dcp])
  have src: "lookup fs2 (root @ r) = lookup (disk s) (root @ r)" for r
    using d2 [OF diverge_right [OF diverge_sym [OF drp]]]
      d1 [OF diverge_right [OF diverge_sym [OF drc]]] by simp
  have c2: "isdir fs2 ?csv" using isdir_cong [OF d2 [OF dpc [of "[]"]]] c1 by simp
  have kc: "lookup fs2 (?csv @ [f]) = lookup (disk s) (?csv @ [f])" for f
    using d2 [OF dpc [of "[f]"]] k1 [of f] by simp
  have kp: "lookup fs2 (?pdf @ [f]) = lookup (disk s) (?pdf @ [f])" for f
    using k2 [of f] d1 [OF dcpq [of "[f]"]] by simp
  have inv: "sort_inv (disk s) root ?csv ?pdf fs2"
    unfolding sort_inv_def sorted_from_def
    using src c2 p2 kc kp csv(2) pdf(2) isdir_cong [OF kc] isdir_cong [OF kp] by simp
  let ?s2 = "s\<lparr>disk := fs2\<rparr>"
  let ?s' = "fold (sort_directory ?csv ?pdf) (map fst (os_walk (disk ?s2) root)) ?s2"
  from inv have inv2: "sort_inv (disk s) root ?csv ?pdf (disk ?s2)" by simp
  have run: "organize_files_by_extension root mp s = Inr ?s'"
    by (simp add: organize_files_by_extension_def Let_def e1 e2)
  from that [OF run sort_walk(1) [OF drc drp dcp inv2] sort_walk(2) [OF drc drp dcp inv2]]
  show ?thesis .
qed

section \<open>Fuel\<close>

lemma copytree_mono:
  "copytree n src dst fs = Some r \<Longrightarrow> copytree (n + k) src dst fs = Some r"
  "copy_entries n src dst ns errs fs = Some r \<Longrightarrow> copy_entries (n + k) src dst ns errs fs = Some r"
proof (induction n src dst fs and n src dst ns errs fs arbitrary: r and r rule: copytree_copy_entries.induct)
  case (1 src dst fs)
  then show ?case by simp
next
  case (2 n src dst fs)
  then show ?case by (auto split: sum.splits)
next
  case (3 n src dst errors fs)
  then show ?case by simp
next
  case (4 n src dst m ns errors fs)
  show ?case
  proof (cases "isdir fs (src @ [m])")
    case True
    with "4.prems" obtain fs' e where c: "copytree n (src @ [m]) (dst @ [m]) fs = Some (fs', e)"
      and rest: "copy_entries n src dst ns (errors \<or> e \<noteq> None) fs' = Some r"
      by (auto split: option.splits)
    from "4.IH"(1) [OF True c] "4.IH"(2) [OF True c refl rest] True show ?thesis by simp
  next
    case False
    show ?thesis
    proof (cases "shutil_copy (src @ [m]) (dst @ [m]) fs")
      case (Inl e)
      with False "4.prems" "4.IH"(3) [OF False Inl] show ?thesis by simp
    next
      case (Inr fs')
      with False "4.prems" "4.IH"(4) [OF False Inr] show ?thesis by simp
    qed
  qed
qed

lemma stage_item_mono:
  "stage_item n src dst item s = Some r \<Longrightarrow> stage_item (n + k) src dst item s = Some r"
  by (auto simp: stage_item_def Let_def copytree_mono(1) split: if_splits option.splits prod.splits sum.splits)

lemma stage_items_mono:
  "stage_items n src dst items s = Some r \<Longrightarrow> stage_items (n + k) src dst items s = Some r"
  by (induction items arbitrary: s) (auto simp: stage_item_mono split: option.splits)

lemma copy_to_extracted_folder_mono:
  "copy_to_extracted_folder n src dst s = Some r \<Longrightarrow> copy_to_extracted_folder (n + k) src dst s = Some r"
  by (auto simp: copy_to_extracted_folder_def stage_items_mono split: sum.splits)

lemma unpack_loop_mono:
  "unpack_loop n st = Some r \<Longrightarrow> unpack_loop (n + k) st = Some r"
proof (induction n st rule: unpack_loop.induct)
  case (3 fuel c stk s)
  then show ?case by (auto split: sum.splits)
qed simp_all

lemma find_and_extract_zip_files_mono:
  "find_and_extract_zip_files n p s = Some r \<Longrightarrow> find_and_extract_zip_files (n + k) p s = Some r"
  by (simp add: find_and_extract_zip_files_def unpack_loop_mono)

text \<open>More fuel never changes what a run returns.\<close>

lemma select_folder_and_process_mono:
  assumes "select_folder_and_process n answer s = Some r"
  shows "select_folder_and_process (n + k) answer s = Some r"
proof (cases answer)
  case None
  with assms show ?thesis by (simp add: select_folder_and_process_def)
next
  case (Some folder)
  show ?thesis
  proof (cases "ensure_dir (folder @ [''Merged'']) (disk s)")
    case (Inl e)
    with Some assms show ?thesis by (simp add: select_folder_and_process_def)
  next
    case (Inr fs1)
    let ?c = "\<lambda>n. copy_to_extracted_folder n folder (folder @ [''Extracted'']) (s\<lparr>disk := fs1\<rparr>)"
    from assms Some Inr obtain r1 where c: "?c n = Some r1"
      by (auto simp: select_folder_and_process_def Let_def split: option.splits)
    from copy_to_extracted_folder_mono [OF c] have ck: "?c (n + k) = Some r1" .
    show ?thesis
    proof (cases r1)
      case (Inl e)
      with assms Some Inr c ck show ?thesis by (auto simp: select_folder_and_process_def Let_def)
    next
      case r1: (Inr s2)
      let ?s2 = "s2\<lparr>maximum := calculate_total_tasks (disk s2) (folder @ [''Extracted''])\<rparr>"
      from assms Some Inr c r1 obtain r2 where
        u: "find_and_extract_zip_files n (folder @ [''Extracted'']) ?s2 = Some r2"
        by (auto simp: select_folder_and_process_def Let_def split: option.splits)
      from find_and_extract_zip_files_mono [OF u]
      have uk: "find_and_extract_zip_files (n + k) (folder @ [''Extracted'']) ?s2 = Some r2" .
      from assms show ?thesis
        by (simp add: select_folder_and_process_def Let_def Some Inr c ck r1 u uk)
    qed
  qed
qed

section \<open>Runs on given folders\<close>

text \<open>The program on the folders defined above, evaluated once each.\<close>

lemma scenario_run:
  "select_folder_and_process 10 (Some []) (initial scenario) =
    Some (Inr \<lparr>disk = Dir [(''a.zip'', Zip [(''b.zip'', Zip [(''report.pdf'', Plain
      ''%PDF''), (''data.csv'', Plain ''1,2'')])]), (''notes.csv'', Plain ''3,4''),
      (''Merged'', Dir [(''All_CSVs'', Dir [(''data.csv'', Plain ''1,2'')]), (''All_PDFs'', Dir
      [(''report.pdf'', Plain ''%PDF'')])]), (''Extracted'', Dir [(''a.zip'', Zip [(''b.zip'',
      Zip [(''report.pdf'', Plain ''%PDF''), (''data.csv'', Plain ''1,2'')])]), (''Merged'',
      Dir []), (''Extracted'', Dir [(''a.zip'', Zip [(''b.zip'', Zip [(''report.pdf'', Plain
      ''%PDF''), (''data.csv'', Plain ''1,2'')])]), (''Merged'', Dir []), (''a'', Dir
      [(''b.zip'', Zip [(''report.pdf'', Plain ''%PDF''), (''data.csv'', Plain ''1,2'')]),
      (''b'', Dir [(''report.pdf'', Plain ''%PDF''), (''data.csv'', Plain ''1,2'')])])]),
      (''a'', Dir [(''b.zip'', Zip [(''report.pdf'', Plain ''%PDF''), (''data.csv'', Plain
      ''1,2'')]), (''b'', Dir [(''report.pdf'', Plain ''%PDF''), (''data.csv'', Plain
      ''1,2'')])])])], log = [CopiedZipFile [''a.zip''] [''Extracted'', ''a.zip''],
      CopiedFolder [''Merged''] [''Extracted'', ''Merged''], CopiedFolder [''Extracted'']
      [''Extracted'', ''Extracted''], SuccessfullyExtracted [''Extracted'', ''a.zip'']
      [''Extracted'', ''a''], SuccessfullyExtracted [''Extracted'', ''Extracted'', ''a.zip'']
      [''Extracted'', ''Extracted'', ''a''], SuccessfullyExtracted [''Extracted'',
      ''Extracted'', ''a'', ''b.zip''] [''Extracted'', ''Extracted'', ''a'', ''b''],
      SuccessfullyExtracted [''Extracted'', ''a'', ''b.zip''] [''Extracted'', ''a'', ''b''],
      CopiedPDF [''Extracted'', ''Extracted'', ''a'', ''b'', ''report.pdf''] [''Merged'',
      ''All_PDFs''], CopiedCSV [''Extracted'', ''Extracted'', ''a'', ''b'', ''data.csv'']
      [''Merged'', ''All_CSVs''], CopiedPDF [''Extracted'', ''a'', ''b'', ''report.pdf'']
      [''Merged'', ''All_PDFs''], CopiedCSV [''Extracted'', ''a'', ''b'', ''data.csv'']
      [''Merged'', ''All_CSVs''], ProcessCompleted], progress = 11, maximum = 2, dialogs =
      [ProcessComplete]\<rparr>)"
  by code_simp

lemma notes_staging:
  "copy_to_extracted_folder 5 [] [''Extracted''] (initial notes_folder) =
    Some (Inr \<lparr>disk = Dir [(''notes.csv'', Plain ''3,4''), (''Extracted'', Dir
      [(''Extracted'', Dir [])])], log = [CopiedFolder [''Extracted''] [''Extracted'',
      ''Extracted'']], progress = 1, maximum = 0, dialogs = []\<rparr>)"
  by code_simp

lemma archive_first_run:
  "find_and_extract_zip_files 5 [] (initial archive_folder) =
    Some (Inr \<lparr>disk = Dir [(''a.zip'', Zip [(''f.txt'', Plain ''new'')]), (''a'', Dir
      [(''f.txt'', Plain ''new'')])], log = [SuccessfullyExtracted [''a.zip''] [''a'']],
      progress = 1, maximum = 0, dialogs = []\<rparr>)"
  by code_simp

lemma archive_second_run:
  "find_and_extract_zip_files 5 [] (initial (Dir [(''a.zip'', Zip [(''f.txt'', Plain ''new'')]), (''a'', Dir [(''f.txt'', Plain ''new'')])])) =
    Some (Inr \<lparr>disk = Dir [(''a.zip'', Zip [(''f.txt'', Plain ''new'')]), (''a'', Dir
      [(''f.txt'', Plain ''new'')])], log = [SuccessfullyExtracted [''a.zip''] [''a'']],
      progress = 1, maximum = 0, dialogs = []\<rparr>)"
  by code_simp

lemma colliding_round:
  "unpack_rounds 1 ([[]], initial colliding_folder) =
    Some ([[''a''], [''a'']], \<lparr>disk = Dir [(''a'', Dir [(''f.txt'', Plain ''new'')]),
      (''a.zip'', Zip [(''f.txt'', Plain ''new'')])], log = [SuccessfullyExtracted [''a.zip'']
      [''a'']], progress = 1, maximum = 0, dialogs = []\<rparr>)"
  by code_simp


lemma two_csv_sorting:
  "organize_files_by_extension [''Extracted''] [''Merged''] (initial two_csv_folder) =
    Inr \<lparr>disk = Dir [(''Extracted'', Dir [(''d1'', Dir [(''x.csv'', Plain ''1'')]),
      (''d2'', Dir [(''x.csv'', Plain ''2'')]), (''readme.txt'', Plain ''r'')]), (''Merged'',
      Dir [(''All_CSVs'', Dir [(''x.csv'', Plain ''2'')]), (''All_PDFs'', Dir [])])], log =
      [CopiedCSV [''Extracted'', ''d1'', ''x.csv''] [''Merged'', ''All_CSVs''], CopiedCSV
      [''Extracted'', ''d2'', ''x.csv''] [''Merged'', ''All_CSVs'']], progress = 2, maximum =
      0, dialogs = []\<rparr>"
  by code_simp

lemma occupied_run:
  "select_folder_and_process 5 (Some []) (initial occupied_folder) =
    Some (Inl OtherOSError)"
  by code_simp

lemma shadowed_run:
  "select_folder_and_process 5 (Some []) (initial shadowed_folder) =
    Some (Inl OtherOSError)"
  by code_simp

lemma empty_run:
  "select_folder_and_process 5 (Some []) (initial (Dir [])) =
    Some (Inr \<lparr>disk = Dir [(''Merged'', Dir [(''All_CSVs'', Dir []), (''All_PDFs'', Dir
      [])]), (''Extracted'', Dir [(''Merged'', Dir []), (''Extracted'', Dir [(''Merged'', Dir
      [])])])], log = [CopiedFolder [''Merged''] [''Extracted'', ''Merged''], CopiedFolder
      [''Extracted''] [''Extracted'', ''Extracted''], ProcessCompleted], progress = 2, maximum
      = 0, dialogs = [ProcessComplete]\<rparr>)"
  by code_simp


lemma kept_run:
  "find_and_extract_zip_files 5 [] (initial kept_folder) =
    Some (Inr \<lparr>disk = Dir [(''broken'', Dir [(''keep.txt'', Plain ''k'')]),
      (''broken.zip'', Plain ''not a zip'')], log = [BadZipSkipping [''broken.zip'']], progress
      = 0, maximum = 0, dialogs = []\<rparr>)"
  by code_simp


lemma damaged_run:
  "find_and_extract_zip_files 1 [] (initial damaged_folder) =
    Some (Inr \<lparr>disk = Dir [(''x.zip'', Damaged [(''inner.zip'', Zip [(''f.txt'', Plain
      ''new'')])] [''tail.bin''] (BadCRC ''ta'')), (''x'', Dir [(''inner.zip'', Zip
      [(''f.txt'', Plain ''new'')]), (''tail.bin'', Plain ''ta'')])], log = [BadZipSkipping
      [''x.zip'']], progress = 0, maximum = 0, dialogs = []\<rparr>)"
  by code_simp

lemma damaged_extract:
  "extractall [''x''] [(''inner.zip'', Zip [(''f.txt'', Plain ''new'')])] (Some ([''tail.bin''], BadCRC ''ta'')) (Dir [(''x.zip'', Damaged [(''inner.zip'', Zip [(''f.txt'', Plain ''new'')])] [''tail.bin''] (BadCRC ''ta'')), (''x'', Dir [])]) =
    (Dir [(''x.zip'', Damaged [(''inner.zip'', Zip [(''f.txt'', Plain ''new'')])]
      [''tail.bin''] (BadCRC ''ta'')), (''x'', Dir [(''inner.zip'', Zip [(''f.txt'', Plain
      ''new'')]), (''tail.bin'', Plain ''ta'')])], Some BadZipFile)"
  by code_simp

lemma damaged_item:
  "process_item [] ''x.zip'' ([], initial damaged_folder) =
    ([], \<lparr>disk = Dir [(''x.zip'', Damaged [(''inner.zip'', Zip [(''f.txt'', Plain
      ''new'')])] [''tail.bin''] (BadCRC ''ta'')), (''x'', Dir [(''inner.zip'', Zip
      [(''f.txt'', Plain ''new'')]), (''tail.bin'', Plain ''ta'')])], log = [BadZipSkipping
      [''x.zip'']], progress = 0, maximum = 0, dialogs = []\<rparr>)"
  by code_simp


section \<open>The scenario of the specification\<close>

text \<open>
  Claim C1, as the specification states it: from a folder with \<^verbatim>\<open>a.zip\<close> (holding
  \<^verbatim>\<open>b.zip\<close>, which holds \<^verbatim>\<open>report.pdf\<close> and \<^verbatim>\<open>data.csv\<close>) and the loose file
  \<^verbatim>\<open>notes.csv\<close>, the run leaves \<^verbatim>\<open>notes.csv\<close> in \<^verbatim>\<open>Merged/All_CSVs\<close>. It does not: the
  run returns, and there is no such file, since the loose file never reaches the working
  area.
\<close>

theorem C1_notes_csv_not_merged:
  "outcome_lookup (select_folder_and_process 10 (Some []) (initial scenario))
     [''Merged'', ''All_CSVs'', ''notes.csv''] = Some None
   \<and> outcome_lookup (select_folder_and_process 10 (Some []) (initial scenario))
     [''Extracted'', ''notes.csv''] = Some None"
  unfolding scenario_run outcome_lookup_def by simp

text \<open>
  Claim C1, amended: the run of the scenario returns and shows the completion dialog,
  \<^verbatim>\<open>Extracted/a/b/report.pdf\<close> and \<^verbatim>\<open>Extracted/a/b/data.csv\<close> exist with the contents they
  have in the archive, \<^verbatim>\<open>Merged/All_PDFs\<close> holds \<^verbatim>\<open>report.pdf\<close> and \<^verbatim>\<open>Merged/All_CSVs\<close>
  holds \<^verbatim>\<open>data.csv\<close> and nothing else: staging takes directories and zip files only, so
  the loose \<^verbatim>\<open>notes.csv\<close> stays where it was and is not sorted.
\<close>

theorem C1_scenario:
  "outcome_dialogs (select_folder_and_process 10 (Some []) (initial scenario)) = Some [ProcessComplete]
   \<and> outcome_lookup (select_folder_and_process 10 (Some []) (initial scenario))
        [''Extracted'', ''a'', ''b'', ''report.pdf''] = Some (Some (Plain ''%PDF''))
   \<and> outcome_lookup (select_folder_and_process 10 (Some []) (initial scenario))
        [''Extracted'', ''a'', ''b'', ''data.csv''] = Some (Some (Plain ''1,2''))
   \<and> outcome_lookup (select_folder_and_process 10 (Some []) (initial scenario))
        [''Merged'', ''All_PDFs''] = Some (Some (Dir [(''report.pdf'', Plain ''%PDF'')]))
   \<and> outcome_lookup (select_folder_and_process 10 (Some []) (initial scenario))
        [''Merged'', ''All_CSVs''] = Some (Some (Dir [(''data.csv'', Plain ''1,2'')]))
   \<and> outcome_lookup (select_folder_and_process 10 (Some []) (initial scenario))
        [''notes.csv''] = Some (Some (Plain ''3,4''))"
  unfolding scenario_run outcome_lookup_def outcome_dialogs_def by simp

section \<open>Folders of plain files\<close>

text \<open>
  Claim C2, as the specification states it: staging copies every plain file of the
  source folder into the working area. It does not: after staging the folder that holds
  only \<^verbatim>\<open>notes.csv\<close>, there is no \<^verbatim>\<open>Extracted/notes.csv\<close>.
\<close>

theorem C2_notes_csv_not_staged:
  "lookup notes_folder [''notes.csv''] = Some (Plain ''3,4'')
   \<and> outcome_lookup (copy_to_extracted_folder 5 [] [''Extracted''] (initial notes_folder))
         [''Extracted'', ''notes.csv''] = Some None"
  unfolding notes_staging outcome_lookup_def by (simp add: notes_folder_def)

text \<open>
  Claim C2, amended: when the children of the source folder are regular files, none of
  them named \<^verbatim>\<open>*.zip\<close> (nor \<^verbatim>\<open>Extracted\<close>), staging returns and has copied none of them
  into the working area, since it takes directories and zip files only; unpacking the
  working area then returns in the state it started in: no extraction, no line in the
  log, the tree unchanged.
\<close>

theorem C2_plain_files_not_staged:
  assumes "lookup (disk s) folder = Some (Dir es)"
    and "\<forall>(n, c) \<in> set es. \<not> is_dir_node c \<and> \<not> endswith n ''.zip'' \<and> n \<noteq> ''Extracted''"
  shows "\<exists>s1. copy_to_extracted_folder (Suc fuel) folder (folder @ [''Extracted'']) s = Some (Inr s1)
           \<and> (\<forall>(n, c) \<in> set es. \<not> exists_path (disk s1) (folder @ [''Extracted'', n]))
           \<and> (\<exists>k. \<forall>fuel'. find_and_extract_zip_files (k + fuel') (folder @ [''Extracted'']) s1 = Some (Inr s1))"
proof -
  from assms(2) have plain:
    "\<And>n c. (n, c) \<in> set es \<Longrightarrow> \<not> is_dir_node c \<and> \<not> endswith n ''.zip'' \<and> n \<noteq> ''Extracted''"
    by blast
  from staging_plain_files [OF assms(1) plain, of fuel] obtain s1 where
    run: "copy_to_extracted_folder (Suc fuel) folder (folder @ [''Extracted'']) s = Some (Inr s1)"
    and E: "lookup (disk s1) (folder @ [''Extracted'']) = Some (Dir [(''Extracted'', Dir [])])"
    by blast
  have none: "\<not> exists_path (disk s1) (folder @ [''Extracted'', n])" if "(n, c) \<in> set es" for n c
  proof -
    from plain [OF that] have "n \<noteq> ''Extracted''" by simp
    then show ?thesis
      using lookup_child [OF E, of n "[]"] by (simp add: exists_path_def)
  qed
  have "no_archives (Dir [(''Extracted'', Dir [])])" by simp
  from unpack_no_archives [OF this E] obtain k where
    "\<And>fuel stk. unpack_loop (k + fuel) ((folder @ [''Extracted'']) # stk, s1) = unpack_loop fuel (stk, s1)"
    by auto
  then have "\<forall>fuel'. find_and_extract_zip_files (k + fuel') (folder @ [''Extracted'']) s1 = Some (Inr s1)"
    by (simp add: find_and_extract_zip_files_def)
  with run none show ?thesis by blast
qed

text \<open>Claim C2, amended, on the folder that holds only \<^verbatim>\<open>notes.csv\<close>.\<close>

theorem C2_plain_files_not_staged_witness:
  "lookup (disk (initial notes_folder)) [] = Some (Dir [(''notes.csv'', Plain ''3,4'')])
   \<and> \<not> is_dir_node (Plain ''3,4'') \<and> \<not> endswith ''notes.csv'' ''.zip''
   \<and> (\<exists>s1. copy_to_extracted_folder (Suc 0) [] [''Extracted''] (initial notes_folder) = Some (Inr s1)
           \<and> \<not> exists_path (disk s1) [''Extracted'', ''notes.csv'']
           \<and> (\<exists>k. \<forall>fuel'. find_and_extract_zip_files (k + fuel') [''Extracted''] s1 = Some (Inr s1)))"
proof -
  have h1: "lookup (disk (initial notes_folder)) [] = Some (Dir [(''notes.csv'', Plain ''3,4'')])"
    by (simp add: initial_def notes_folder_def)
  have h2: "\<forall>(n, c) \<in> set [(''notes.csv'', Plain ''3,4'')].
         \<not> is_dir_node c \<and> \<not> endswith n ''.zip'' \<and> n \<noteq> ''Extracted''"
    by (simp add: endswith_def)
  from C2_plain_files_not_staged [OF h1 h2, of 0] h1 h2 show ?thesis by simp
qed

section \<open>Nesting of any depth\<close>

text \<open>
  Claim C3: for archives nested \<open>n\<close> deep, whatever \<open>n\<close>, the unpacker returns: \<open>n + 1\<close>
  rounds of its loop empty the stack (and more fuel changes nothing). It leaves the
  \<open>n\<close> levels of extracted directories \<^verbatim>\<open>a/a/.../a\<close> and no level more, each archive still
  beside its directory, and it logs \<open>n\<close> extractions.
\<close>

theorem C3_nested_archives:
  "find_and_extract_zip_files (Suc n + fuel) [] (initial (Dir (nested n))) =
     Some (Inr \<lparr>disk = unpacked n, log = extraction_log [] n, progress = n, maximum = 0, dialogs = []\<rparr>)
   \<and> isdir (unpacked n) (replicate n ''a'') \<and> \<not> isdir (unpacked n) (replicate (Suc n) ''a'')
   \<and> length (extraction_log [] n) = n"
proof -
  have "lookup (disk (initial (Dir (nested n)))) [] = Some (Dir (nested n))"
    by (simp add: initial_def)
  from unpack_nested [OF this, of fuel "[]"]
  have "find_and_extract_zip_files (Suc n + fuel) [] (initial (Dir (nested n))) =
     Some (Inr \<lparr>disk = unpacked n, log = extraction_log [] n, progress = n, maximum = 0, dialogs = []\<rparr>)"
    by (simp add: find_and_extract_zip_files_def initial_def)
  then show ?thesis
    by (simp add: isdir_unpacked length_extraction_log del: replicate.simps)
qed

section \<open>A second run of the unpacker\<close>

text \<open>
  Claim C4, as the specification states it: a second run of the unpacker on a tree it
  has unpacked extracts nothing, since no archive is left. It does extract: the first
  run on the folder that holds \<^verbatim>\<open>a.zip\<close> leaves \<^verbatim>\<open>a.zip\<close> beside the directory \<^verbatim>\<open>a\<close>, and the
  run on that tree extracts \<^verbatim>\<open>a.zip\<close> once more.
\<close>

theorem C4_second_run_extracts_again:
  "outcome_lookup (find_and_extract_zip_files 5 [] (initial archive_folder)) [] =
     Some (Some (Dir [(''a.zip'', Zip [(''f.txt'', Plain ''new'')]), (''a'', Dir [(''f.txt'', Plain ''new'')])]))
   \<and> outcome_log (find_and_extract_zip_files 5 []
        (initial (Dir [(''a.zip'', Zip [(''f.txt'', Plain ''new'')]), (''a'', Dir [(''f.txt'', Plain ''new'')])])))
      = Some [SuccessfullyExtracted [''a.zip''] [''a'']]"
  unfolding archive_first_run archive_second_run outcome_lookup_def outcome_log_def by simp

text \<open>
  Claim C4, amended: on a tree in which no regular file is named \<^verbatim>\<open>*.zip\<close> the unpacker
  returns, with enough fuel, in the state it started in: it extracts nothing, logs
  nothing and leaves the tree as it is.
\<close>

theorem C4_no_archive_no_extraction:
  assumes "lookup (disk s) root = Some (Dir es)" and "no_archives (Dir es)"
  shows "\<exists>k. \<forall>fuel. find_and_extract_zip_files (k + fuel) root s = Some (Inr s)"
proof -
  from unpack_no_archives [OF assms(2) assms(1)] obtain k where
    "\<And>fuel stk. unpack_loop (k + fuel) (root # stk, s) = unpack_loop fuel (stk, s)" by auto
  then have "\<forall>fuel. find_and_extract_zip_files (k + fuel) root s = Some (Inr s)"
    by (simp add: find_and_extract_zip_files_def)
  then show ?thesis by blast
qed

text \<open>Claim C4, amended, on a folder without archives.\<close>

theorem C4_no_archive_no_extraction_witness:
  "lookup (disk (initial plain_folder)) [] =
     Some (Dir [(''docs'', Dir [(''notes.csv'', Plain ''3,4'')]), (''report.pdf'', Plain ''%PDF'')])
   \<and> no_archives (Dir [(''docs'', Dir [(''notes.csv'', Plain ''3,4'')]), (''report.pdf'', Plain ''%PDF'')])
   \<and> (\<exists>k. \<forall>fuel. find_and_extract_zip_files (k + fuel) [] (initial plain_folder)
                     = Some (Inr (initial plain_folder)))"
proof -
  have h1: "lookup (disk (initial plain_folder)) [] =
     Some (Dir [(''docs'', Dir [(''notes.csv'', Plain ''3,4'')]), (''report.pdf'', Plain ''%PDF'')])"
    by (simp add: initial_def plain_folder_def)
  have h2: "no_archives (Dir [(''docs'', Dir [(''notes.csv'', Plain ''3,4'')]), (''report.pdf'', Plain ''%PDF'')])"
    by (simp add: endswith_def)
  from C4_no_archive_no_extraction [OF h1 h2] h1 h2 show ?thesis by simp
qed

section \<open>The frontier of the unpacker\<close>




section \<open>Sorting by suffix\<close>

text \<open>
  Claim C6, as the specification states it: every file below the root with a recognized
  suffix has its copy in the folder of its category. It has not: of the two files
  \<^verbatim>\<open>d1/x.csv\<close> and \<^verbatim>\<open>d2/x.csv\<close>, which differ, \<^verbatim>\<open>Merged/All_CSVs\<close> holds the second alone.
\<close>

theorem C6_same_name_overwritten:
  "lookup two_csv_folder [''Extracted'', ''d1'', ''x.csv''] = Some (Plain ''1'')
   \<and> result_lookup (organize_files_by_extension [''Extracted''] [''Merged''] (initial two_csv_folder))
        [''Merged'', ''All_CSVs''] = Some (Some (Dir [(''x.csv'', Plain ''2'')]))"
  unfolding two_csv_sorting result_lookup_def by (simp add: two_csv_folder_def)

text \<open>
  Claim C6, amended: let \<^verbatim>\<open>Merged\<close> be a directory in which \<^verbatim>\<open>All_CSVs\<close> and \<^verbatim>\<open>All_PDFs\<close> are
  absent or directories without subdirectories. Then the sorter returns, and for every
  regular file below \<^verbatim>\<open>Extracted\<close> whose name ends in \<^verbatim>\<open>.csv\<close> the folder \<^verbatim>\<open>All_CSVs\<close> holds
  under that name the contents of a file of that name from below \<^verbatim>\<open>Extracted\<close> (its own
  when no other file below \<^verbatim>\<open>Extracted\<close> has its name, one of them otherwise), likewise
  for \<^verbatim>\<open>.pdf\<close> and \<^verbatim>\<open>All_PDFs\<close>; and every name in either folder is as it was before the run
  or holds such a copy and has the suffix of the folder, so no other file is copied.
\<close>

theorem C6_sorting_classifies:
  assumes "isdir (disk s) (folder @ [''Merged''])"
    and "\<not> isfile (disk s) (folder @ [''Merged'', ''All_CSVs''])"
    and "\<not> isfile (disk s) (folder @ [''Merged'', ''All_PDFs''])"
    and "\<forall>f. \<not> isdir (disk s) (folder @ [''Merged'', ''All_CSVs'', f])
           \<and> \<not> isdir (disk s) (folder @ [''Merged'', ''All_PDFs'', f])"
  shows "\<exists>s'. organize_files_by_extension (folder @ [''Extracted'']) (folder @ [''Merged'']) s = Inr s'
     \<and> (\<forall>r f. isfile (disk s) (folder @ [''Extracted''] @ r @ [f]) \<and> endswith f ''.csv'' \<longrightarrow>
          (\<exists>r'. isfile (disk s) (folder @ [''Extracted''] @ r' @ [f])
               \<and> lookup (disk s') (folder @ [''Merged'', ''All_CSVs'', f])
                   = lookup (disk s) (folder @ [''Extracted''] @ r' @ [f])))
     \<and> (\<forall>r f. isfile (disk s) (folder @ [''Extracted''] @ r @ [f]) \<and> endswith f ''.pdf'' \<longrightarrow>
          (\<exists>r'. isfile (disk s) (folder @ [''Extracted''] @ r' @ [f])
               \<and> lookup (disk s') (folder @ [''Merged'', ''All_PDFs'', f])
                   = lookup (disk s) (folder @ [''Extracted''] @ r' @ [f])))
     \<and> (\<forall>f. lookup (disk s') (folder @ [''Merged'', ''All_CSVs'', f])
                = lookup (disk s) (folder @ [''Merged'', ''All_CSVs'', f])
             \<or> endswith f ''.csv''
               \<and> (\<exists>r'. isfile (disk s) (folder @ [''Extracted''] @ r' @ [f])
                    \<and> lookup (disk s') (folder @ [''Merged'', ''All_CSVs'', f])
                        = lookup (disk s) (folder @ [''Extracted''] @ r' @ [f])))
     \<and> (\<forall>f. lookup (disk s') (folder @ [''Merged'', ''All_PDFs'', f])
                = lookup (disk s) (folder @ [''Merged'', ''All_PDFs'', f])
             \<or> endswith f ''.pdf''
               \<and> (\<exists>r'. isfile (disk s) (folder @ [''Extracted''] @ r' @ [f])
                    \<and> lookup (disk s') (folder @ [''Merged'', ''All_PDFs'', f])
                        = lookup (disk s) (folder @ [''Extracted''] @ r' @ [f])))"
proof -
  let ?root = "folder @ [''Extracted'']" and ?mp = "folder @ [''Merged'']"
  have dv: "diverge ?root ?mp" by (rule diverge_children) simp
  from organize_sorts [OF dv assms(1), simplified, OF assms(2) _ assms(3)] assms(4)
  obtain s' where run: "organize_files_by_extension ?root ?mp s = Inr s'"
    and inv: "sort_inv (disk s) ?root (?mp @ [''All_CSVs'']) (?mp @ [''All_PDFs'']) (disk s')"
    and owed: "\<And>r f. isfile (disk s) (?root @ r @ [f])
           \<Longrightarrow> owed (disk s) ?root (?mp @ [''All_CSVs'']) (?mp @ [''All_PDFs'']) r f (disk s')"
    by auto
  from inv have sc: "sorted_from (disk s) ?root (?mp @ [''All_CSVs'']) ''.csv'' (disk s')"
    and sp: "sorted_from (disk s) ?root (?mp @ [''All_PDFs'']) ''.pdf'' (disk s')"
    by (simp_all add: sort_inv_def)
  show ?thesis
  proof (rule exI [of _ s'], intro conjI allI impI)
    show "organize_files_by_extension ?root ?mp s = Inr s'" by (rule run)
  next
    fix r f assume "isfile (disk s) (folder @ [''Extracted''] @ r @ [f]) \<and> endswith f ''.csv''"
    with owed [of r f]
    show "\<exists>r'. isfile (disk s) (folder @ [''Extracted''] @ r' @ [f])
               \<and> lookup (disk s') (folder @ [''Merged'', ''All_CSVs'', f])
                   = lookup (disk s) (folder @ [''Extracted''] @ r' @ [f])"
      by (simp add: owed_def copied_def)
  next
    fix r f assume "isfile (disk s) (folder @ [''Extracted''] @ r @ [f]) \<and> endswith f ''.pdf''"
    with owed [of r f]
    show "\<exists>r'. isfile (disk s) (folder @ [''Extracted''] @ r' @ [f])
               \<and> lookup (disk s') (folder @ [''Merged'', ''All_PDFs'', f])
                   = lookup (disk s) (folder @ [''Extracted''] @ r' @ [f])"
      by (simp add: owed_def copied_def)
  next
    fix f
    from sc show "lookup (disk s') (folder @ [''Merged'', ''All_CSVs'', f])
                = lookup (disk s) (folder @ [''Merged'', ''All_CSVs'', f])
             \<or> endswith f ''.csv''
               \<and> (\<exists>r'. isfile (disk s) (folder @ [''Extracted''] @ r' @ [f])
                    \<and> lookup (disk s') (folder @ [''Merged'', ''All_CSVs'', f])
                        = lookup (disk s) (folder @ [''Extracted''] @ r' @ [f]))"
      by (simp add: sorted_from_def copied_def)
  next
    fix f
    from sp show "lookup (disk s') (folder @ [''Merged'', ''All_PDFs'', f])
                = lookup (disk s) (folder @ [''Merged'', ''All_PDFs'', f])
             \<or> endswith f ''.pdf''
               \<and> (\<exists>r'. isfile (disk s) (folder @ [''Extracted''] @ r' @ [f])
                    \<and> lookup (disk s') (folder @ [''Merged'', ''All_PDFs'', f])
                        = lookup (disk s) (folder @ [''Extracted''] @ r' @ [f]))"
      by (simp add: sorted_from_def copied_def)
  qed
qed

text \<open>Claim C6, amended, on the folder with the two files \<^verbatim>\<open>x.csv\<close>.\<close>

theorem C6_sorting_classifies_witness:
  "isdir (disk (initial two_csv_folder)) ([] @ [''Merged''])
   \<and> \<not> isfile (disk (initial two_csv_folder)) ([] @ [''Merged'', ''All_CSVs''])
   \<and> \<not> isfile (disk (initial two_csv_folder)) ([] @ [''Merged'', ''All_PDFs''])
   \<and> (\<forall>f. \<not> isdir (disk (initial two_csv_folder)) ([] @ [''Merged'', ''All_CSVs'', f])
          \<and> \<not> isdir (disk (initial two_csv_folder)) ([] @ [''Merged'', ''All_PDFs'', f]))
   \<and> (\<exists>s'. organize_files_by_extension [''Extracted''] [''Merged''] (initial two_csv_folder) = Inr s'
          \<and> (\<exists>r'. isfile (disk (initial two_csv_folder)) ([''Extracted''] @ r' @ [''x.csv''])
                 \<and> lookup (disk s') [''Merged'', ''All_CSVs'', ''x.csv'']
                     = lookup (disk (initial two_csv_folder)) ([''Extracted''] @ r' @ [''x.csv''])))"
proof -
  have h1: "isdir (disk (initial two_csv_folder)) ([] @ [''Merged''])"
    by (simp add: initial_def two_csv_folder_def isdir_def)
  have h2: "\<not> isfile (disk (initial two_csv_folder)) ([] @ [''Merged'', ''All_CSVs''])"
    by (simp add: initial_def two_csv_folder_def isfile_def)
  have h3: "\<not> isfile (disk (initial two_csv_folder)) ([] @ [''Merged'', ''All_PDFs''])"
    by (simp add: initial_def two_csv_folder_def isfile_def)
  have h4: "\<forall>f. \<not> isdir (disk (initial two_csv_folder)) ([] @ [''Merged'', ''All_CSVs'', f])
          \<and> \<not> isdir (disk (initial two_csv_folder)) ([] @ [''Merged'', ''All_PDFs'', f])"
    by (simp add: initial_def two_csv_folder_def isdir_def)
  have f: "isfile (disk (initial two_csv_folder)) ([] @ [''Extracted''] @ [''d1''] @ [''x.csv''])
           \<and> endswith ''x.csv'' ''.csv''"
    by (simp add: initial_def two_csv_folder_def isfile_def endswith_def)
  from C6_sorting_classifies [OF h1 h2 h3 h4] obtain s' where
    run: "organize_files_by_extension ([] @ [''Extracted'']) ([] @ [''Merged'']) (initial two_csv_folder) = Inr s'"
    and csv: "\<forall>r f. isfile (disk (initial two_csv_folder)) ([] @ [''Extracted''] @ r @ [f]) \<and> endswith f ''.csv'' \<longrightarrow>
          (\<exists>r'. isfile (disk (initial two_csv_folder)) ([] @ [''Extracted''] @ r' @ [f])
               \<and> lookup (disk s') ([] @ [''Merged'', ''All_CSVs'', f])
                   = lookup (disk (initial two_csv_folder)) ([] @ [''Extracted''] @ r' @ [f]))"
    by blast
  from csv f have "\<exists>r'. isfile (disk (initial two_csv_folder)) ([] @ [''Extracted''] @ r' @ [''x.csv''])
               \<and> lookup (disk s') ([] @ [''Merged'', ''All_CSVs'', ''x.csv''])
                   = lookup (disk (initial two_csv_folder)) ([] @ [''Extracted''] @ r' @ [''x.csv''])"
    by blast
  with run h1 h2 h3 h4 show ?thesis by simp
qed

section \<open>Errors\<close>

text \<open>
  Claim C7 (every error of a work item is caught and the run ends in the completion
  dialog) fails on the code: \<^verbatim>\<open>os.listdir(current_path)\<close> stands outside the \<^verbatim>\<open>try\<close> of the
  unpacker. In a folder that holds a regular file named \<^verbatim>\<open>Extracted\<close>, and in a folder
  with a directory that holds a file \<^verbatim>\<open>b\<close> and an empty archive \<^verbatim>\<open>b.zip\<close> (whose target
  \<^verbatim>\<open>b\<close> is then put on the stack), the error of the listing leaves the run: no completion
  dialog is shown.
\<close>

theorem C7_listing_error_aborts:
  "select_folder_and_process 5 (Some []) (initial occupied_folder) = Some (Inl OtherOSError)
   \<and> outcome_dialogs (select_folder_and_process 5 (Some []) (initial occupied_folder)) = None
   \<and> select_folder_and_process 5 (Some []) (initial shadowed_folder) = Some (Inl OtherOSError)
   \<and> outcome_dialogs (select_folder_and_process 5 (Some []) (initial shadowed_folder)) = None"
  unfolding occupied_run shadowed_run outcome_dialogs_def by simp

section \<open>The empty folder\<close>

text \<open>
  Claim C8, as the specification states it: on an empty folder the run leaves
  \<^verbatim>\<open>Extracted\<close> empty and logs nothing. It does neither: \<^verbatim>\<open>Extracted\<close> holds two directories
  and the log has three lines, the last of them the line of completion.
\<close>

theorem C8_empty_folder_logs:
  "outcome_log (select_folder_and_process 5 (Some []) (initial (Dir []))) =
     Some [CopiedFolder [''Merged''] [''Extracted'', ''Merged''],
           CopiedFolder [''Extracted''] [''Extracted'', ''Extracted''],
           ProcessCompleted]
   \<and> outcome_lookup (select_folder_and_process 5 (Some []) (initial (Dir []))) [''Extracted''] =
     Some (Some (Dir [(''Merged'', Dir []), (''Extracted'', Dir [(''Merged'', Dir [])])]))"
  unfolding empty_run outcome_log_def outcome_lookup_def by simp

text \<open>
  Claim C8, amended: on an empty folder the run returns and shows the completion
  dialog; \<^verbatim>\<open>Extracted\<close> is a directory below which there is no file; \<^verbatim>\<open>Merged\<close> holds the two
  category folders, both empty, and nothing else; the last line of the log is the line
  of completion, which every run that returns logs.
\<close>

theorem C8_empty_folder:
  "outcome_dialogs (select_folder_and_process 5 (Some []) (initial (Dir []))) = Some [ProcessComplete]
   \<and> outcome_kind (select_folder_and_process 5 (Some []) (initial (Dir []))) [''Extracted''] = Some (Some True)
   \<and> outcome_files (select_folder_and_process 5 (Some []) (initial (Dir []))) [''Extracted''] = Some []
   \<and> outcome_lookup (select_folder_and_process 5 (Some []) (initial (Dir []))) [''Merged''] =
       Some (Some (Dir [(''All_CSVs'', Dir []), (''All_PDFs'', Dir [])]))
   \<and> map_option last (outcome_log (select_folder_and_process 5 (Some []) (initial (Dir []))))
       = Some ProcessCompleted"
  unfolding empty_run outcome_dialogs_def outcome_kind_def outcome_files_def outcome_lookup_def
    outcome_log_def
  by (simp add: walk_files_def os_walk_def)

section \<open>Archives are kept\<close>




section \<open>A corrupt archive\<close>

text \<open>
  Claim C10, as the specification states it: a corrupt archive leaves an empty directory
  behind. It does not when the directory is there already: beside the corrupt
  \<^verbatim>\<open>broken.zip\<close> the directory \<^verbatim>\<open>broken\<close> keeps the file it holds. And it does not when the
  archive opens and one of its members is damaged: \<^verbatim>\<open>x.zip\<close> leaves the new directory \<^verbatim>\<open>x\<close>
  with the member that was written before the damaged one and with the bytes of the
  damaged one that were written before its check sum was found wrong.
\<close>

theorem C10_directory_not_empty:
  "outcome_lookup (find_and_extract_zip_files 5 [] (initial kept_folder)) [''broken''] =
     Some (Some (Dir [(''keep.txt'', Plain ''k'')]))
   \<and> outcome_log (find_and_extract_zip_files 5 [] (initial kept_folder)) =
     Some [BadZipSkipping [''broken.zip'']]
   \<and> lookup damaged_folder [''x''] = None
   \<and> outcome_lookup (find_and_extract_zip_files 1 [] (initial damaged_folder)) [''x''] =
     Some (Some (Dir [(''inner.zip'', Zip [(''f.txt'', Plain ''new'')]), (''tail.bin'', Plain ''ta'')]))
   \<and> outcome_log (find_and_extract_zip_files 1 [] (initial damaged_folder)) =
     Some [BadZipSkipping [''x.zip'']]"
  unfolding kept_run damaged_run outcome_lookup_def outcome_log_def
  by (simp add: damaged_folder_def)

text \<open>
  Claim C10, amended: for a \<^verbatim>\<open>*.zip\<close> file in a directory that is being scanned, the
  directory named after the file without its extension is created, empty, before the
  file is opened, if nothing is at that path; what is there otherwise is left as it is.
  A file that is no archive fails when it is opened: the line \<^verbatim>\<open>Bad ZIP file\<close> is logged
  and the directory stays behind as it was made or found. An archive whose extraction
  meets a damaged member and fails as a bad archive has the same line logged, and the
  directory stays behind with what the extraction wrote. Whenever the line
  \<^verbatim>\<open>Bad ZIP file\<close> is logged for the file, nothing is put on the stack, no progress is
  counted, the path of the directory is a directory if nothing was there and is what
  it was otherwise; and the file is no archive, with nothing written, or it is an
  archive with a damaged member, not an encrypted one, and the directory holds what
  the extraction wrote until it met that member.
\<close>

theorem C10_corrupt_archive:
  assumes "isdir (disk s) c" and "isfile (disk s) (c @ [item])" and "endswith item ''.zip''"
  shows "\<exists>fs1. ensure_dir (c @ [splitext_root item]) (disk s) = Inr fs1
           \<and> fs1 = (if exists_path (disk s) (c @ [splitext_root item]) then disk s
                     else put_node (c @ [splitext_root item]) (Dir []) (disk s))
           \<and> lookup fs1 (c @ [splitext_root item])
               = (if exists_path (disk s) (c @ [splitext_root item])
                  then lookup (disk s) (c @ [splitext_root item]) else Some (Dir []))
           \<and> (\<forall>b. lookup (disk s) (c @ [item]) = Some (Plain b) \<longrightarrow>
                 process_item c item (stack, s) =
                   (stack, log_message (BadZipSkipping (c @ [item])) (s\<lparr>disk := fs1\<rparr>)))
           \<and> (\<forall>members m df fs2.
                 lookup (disk s) (c @ [item]) = Some (Damaged members m df)
                 \<and> extractall (c @ [splitext_root item]) members (Some (m, df)) fs1 = (fs2, Some BadZipFile)
                 \<longrightarrow>
                 process_item c item (stack, s) =
                   (stack, log_message (BadZipSkipping (c @ [item])) (s\<lparr>disk := fs2\<rparr>)))
           \<and> (\<forall>stack' s'.
                 process_item c item (stack, s) = (stack', s')
                 \<and> log s' = log s @ [BadZipSkipping (c @ [item])] \<longrightarrow>
                 stack' = stack \<and> progress s' = progress s
                 \<and> (if exists_path (disk s) (c @ [splitext_root item])
                     then kind (disk s') (c @ [splitext_root item]) = kind (disk s) (c @ [splitext_root item])
                     else isdir (disk s') (c @ [splitext_root item]))
                 \<and> ((\<exists>b. lookup (disk s) (c @ [item]) = Some (Plain b) \<and> disk s' = fs1)
                     \<or> (\<exists>members m df.
                           lookup (disk s) (c @ [item]) = Some (Damaged members m df)
                           \<and> df \<noteq> Encrypted
                           \<and> extractall (c @ [splitext_root item]) members (Some (m, df)) fs1
                               = (disk s', Some BadZipFile))))"
proof -
  let ?t = "c @ [splitext_root item]"
  let ?full = "c @ [item]"
  let ?fs1 = "if exists_path (disk s) ?t then disk s else put_node ?t (Dir []) (disk s)"
  from isdir_lookup [OF assms(1)] obtain es where c: "lookup (disk s) c = Some (Dir es)" by blast
  have ens: "ensure_dir ?t (disk s) = Inr ?fs1" by (rule ensure_dir_child [OF c])
  have same: "lookup ?fs1 ?full = lookup (disk s) ?full"
  proof -
    from assms(2) obtain n where n: "lookup (disk s) ?full = Some n" "\<not> is_dir_node n"
      by (auto simp: isfile_def split: option.splits node.splits)
    from ensure_dir_file_frame [OF ens n] n(1) show ?thesis by simp
  qed
  have made: "lookup ?fs1 ?t = (if exists_path (disk s) ?t then lookup (disk s) ?t else Some (Dir []))"
    using lookup_put_node [OF c, of "Dir (AList.update (splitext_root item) (Dir []) es)" "[splitext_root item]"]
    by (simp add: put_node_child [OF c] update_conv')
  have plain: "process_item c item (stack, s) =
           (stack, log_message (BadZipSkipping ?full) (s\<lparr>disk := ?fs1\<rparr>))"
    if b: "lookup (disk s) ?full = Some (Plain b)" for b
  proof -
    from b same have "open_zip ?fs1 ?full = Inl BadZipFile" by (simp add: open_zip_def)
    with assms(2,3) show ?thesis
      by (simp add: process_item_def Let_def ens unpack_handler_def del: lookup.simps)
  qed
  have damaged: "process_item c item (stack, s) =
           (stack, log_message (BadZipSkipping ?full) (s\<lparr>disk := fs2\<rparr>))"
    if d: "lookup (disk s) ?full = Some (Damaged members m df)"
      and ex: "extractall ?t members (Some (m, df)) ?fs1 = (fs2, Some BadZipFile)" for members m df fs2
  proof -
    from d same have "open_zip ?fs1 ?full = Inr (members, Some (m, df))" by (simp add: open_zip_def)
    with assms(2,3) ex show ?thesis
      by (simp add: process_item_def Let_def ens unpack_handler_def del: lookup.simps)
  qed
  have bad: "stack' = stack \<and> progress s' = progress s
       \<and> (if exists_path (disk s) ?t then kind (disk s') ?t = kind (disk s) ?t else isdir (disk s') ?t)
       \<and> ((\<exists>b. lookup (disk s) ?full = Some (Plain b) \<and> disk s' = ?fs1)
           \<or> (\<exists>members m df. lookup (disk s) ?full = Some (Damaged members m df) \<and> df \<noteq> Encrypted
                 \<and> extractall ?t members (Some (m, df)) ?fs1 = (disk s', Some BadZipFile)))"
    if p: "process_item c item (stack, s) = (stack', s')"
      and l: "log s' = log s @ [BadZipSkipping ?full]" for stack' s'
  proof -
    have k1: "kind ?fs1 ?t = (if exists_path (disk s) ?t then kind (disk s) ?t else Some True)"
      using made by (simp add: kind_def is_dir_node_def)
    have keeps: "if exists_path (disk s) ?t then kind fs2 ?t = kind (disk s) ?t else isdir fs2 ?t"
      if "\<And>k. kind ?fs1 ?t = Some k \<Longrightarrow> kind fs2 ?t = Some k" for fs2
    proof (cases "exists_path (disk s) ?t")
      case True
      then obtain k where "kind (disk s) ?t = Some k" by (auto simp: exists_kind)
      with that [of k] k1 True show ?thesis by simp
    next
      case False
      with that [of True] k1 show ?thesis by (simp add: isdir_kind)
    qed
    from p show ?thesis
    proof (cases rule: process_item_cases)
      case no_archive
      with l show ?thesis by simp
    next
      case (mkdir_error e)
      with ens show ?thesis by simp
    next
      case (open_error fs1 e)
      with ens have fs1: "fs1 = ?fs1" by simp
      from open_error(4) fs1 same obtain b where b: "lookup (disk s) ?full = Some (Plain b)"
        using assms(2)
        by (auto simp: open_zip_def isfile_def split: option.splits node.splits)
      from open_error(5,6) fs1 b keeps [of ?fs1] show ?thesis
        by (auto simp: unpack_handler_def log_message_def split: error.splits)
    next
      case (extract_error fs1 ms dmg fs2 e)
      with ens have fs1: "fs1 = ?fs1" by simp
      from l extract_error(7) have e: "e = BadZipFile"
        by (auto simp: unpack_handler_def log_message_def split: error.splits)
      have ex: "extractall ?t ms dmg ?fs1 = (fs2, Some BadZipFile)"
        using extract_error(5) fs1 e by simp
      obtain fsm e1 where m: "extract_members ?t ms ?fs1 = (fsm, e1)" by force
      have e1: "e1 = None"
      proof (cases e1)
        case (Some x)
        with m ex have "x = BadZipFile" by (simp add: extractall_def)
        with extract_members_error m Some show ?thesis by blast
      qed simp
      from ex m e1 obtain m' df where dmg: "dmg = Some (m', df)"
        and dm: "extract_damaged ?t m' df fsm = (fs2, Some BadZipFile)"
        by (cases dmg) (auto simp: extractall_def)
      have df: "df \<noteq> Encrypted"
        using dm by (auto simp: extract_damaged_def Let_def ensure_dir_def
            split: sum.splits if_splits dest: makedirs_error)
      from extract_error(4) fs1 same dmg have d: "lookup (disk s) ?full = Some (Damaged ms m' df)"
        by (auto simp: open_zip_def split: option.splits node.splits)
      have d2: "disk s' = fs2" using extract_error(7) by simp
      have pr: "progress s' = progress s"
        using extract_error(7) by (simp add: unpack_handler_def log_message_def split: error.splits)
      from keeps [of fs2] extractall_kind [OF ex]
      have "if exists_path (disk s) ?t then kind fs2 ?t = kind (disk s) ?t else isdir fs2 ?t" by blast
      with extract_error(6) pr d d2 df ex dmg show ?thesis by auto
    next
      case (extracted fs1 ms dmg fs2)
      with l show ?thesis by (simp add: log_message_def update_progress_def)
    qed
  qed
  from ens made plain damaged bad show ?thesis by blast
qed

text \<open>
  Claim C10, amended, on the folder of the specification with its one corrupt archive,
  a file that is no archive, and on the folder with the archive that has a damaged
  member.
\<close>

theorem C10_corrupt_archive_witness:
  "isdir (disk (initial broken_folder)) []
   \<and> isfile (disk (initial broken_folder)) ([] @ [''broken.zip''])
   \<and> endswith ''broken.zip'' ''.zip''
   \<and> lookup (disk (initial broken_folder)) [''broken.zip''] = Some (Plain ''not a zip'')
   \<and> process_item [] ''broken.zip'' ([], initial broken_folder) =
       ([], \<lparr>disk = Dir [(''broken.zip'', Plain ''not a zip''), (''broken'', Dir [])],
             log = [BadZipSkipping [''broken.zip'']], progress = 0, maximum = 0, dialogs = []\<rparr>)
   \<and> isdir (disk (initial damaged_folder)) []
   \<and> isfile (disk (initial damaged_folder)) ([] @ [''x.zip''])
   \<and> endswith ''x.zip'' ''.zip''
   \<and> lookup (disk (initial damaged_folder)) [''x.zip'']
       = Some (Damaged [(''inner.zip'', Zip [(''f.txt'', Plain ''new'')])] [''tail.bin''] (BadCRC ''ta''))
   \<and> process_item [] ''x.zip'' ([], initial damaged_folder) = ([], damaged_unpacked)
   \<and> log damaged_unpacked = log (initial damaged_folder) @ [BadZipSkipping [''x.zip'']]
   \<and> progress damaged_unpacked = progress (initial damaged_folder)
   \<and> isdir (disk damaged_unpacked) [''x'']"
proof -
  have h1: "isdir (disk (initial broken_folder)) []"
    by (simp add: initial_def broken_folder_def isdir_def)
  have h2: "isfile (disk (initial broken_folder)) ([] @ [''broken.zip''])"
    by (simp add: initial_def broken_folder_def isfile_def)
  have h3: "endswith ''broken.zip'' ''.zip''"
    by (simp add: endswith_def)
  have b: "lookup (disk (initial broken_folder)) [''broken.zip''] = Some (Plain ''not a zip'')"
    by (simp add: initial_def broken_folder_def)
  have stem: "splitext_root ''broken.zip'' = ''broken''"
    by code_simp
  from C10_corrupt_archive [OF h1 h2 h3, of "[]"] b
  have first: "process_item [] ''broken.zip'' ([], initial broken_folder) =
       ([], \<lparr>disk = Dir [(''broken.zip'', Plain ''not a zip''), (''broken'', Dir [])],
             log = [BadZipSkipping [''broken.zip'']], progress = 0, maximum = 0, dialogs = []\<rparr>)"
    by (auto simp: stem initial_def broken_folder_def exists_path_def log_message_def)
  have g1: "isdir (disk (initial damaged_folder)) []"
    by (simp add: initial_def damaged_folder_def isdir_def)
  have g2: "isfile (disk (initial damaged_folder)) ([] @ [''x.zip''])"
    by (simp add: initial_def damaged_folder_def isfile_def)
  have g3: "endswith ''x.zip'' ''.zip''"
    by (simp add: endswith_def)
  have stem2: "splitext_root ''x.zip'' = ''x''"
    by code_simp
  have d: "lookup (disk (initial damaged_folder)) [''x.zip'']
       = Some (Damaged [(''inner.zip'', Zip [(''f.txt'', Plain ''new'')])] [''tail.bin''] (BadCRC ''ta''))"
    by (simp add: initial_def damaged_folder_def)
  have nx: "\<not> exists_path (disk (initial damaged_folder)) [''x'']"
    by (simp add: initial_def damaged_folder_def exists_path_def)
  from C10_corrupt_archive [OF g1 g2 g3, of "[]"] obtain fs1 where
    fs1: "fs1 = (if exists_path (disk (initial damaged_folder)) ([] @ [splitext_root ''x.zip''])
                 then disk (initial damaged_folder)
                 else put_node ([] @ [splitext_root ''x.zip'']) (Dir []) (disk (initial damaged_folder)))"
    and dam: "\<And>members m df fs2.
         lookup (disk (initial damaged_folder)) ([] @ [''x.zip'']) = Some (Damaged members m df)
         \<Longrightarrow> extractall ([] @ [splitext_root ''x.zip'']) members (Some (m, df)) fs1 = (fs2, Some BadZipFile)
         \<Longrightarrow> process_item [] ''x.zip'' ([], initial damaged_folder) =
               ([], log_message (BadZipSkipping ([] @ [''x.zip''])) (initial damaged_folder\<lparr>disk := fs2\<rparr>))"
    and bad: "\<And>stack' s'.
         process_item [] ''x.zip'' ([], initial damaged_folder) = (stack', s')
         \<Longrightarrow> log s' = log (initial damaged_folder) @ [BadZipSkipping ([] @ [''x.zip''])]
         \<Longrightarrow> progress s' = progress (initial damaged_folder)
             \<and> (if exists_path (disk (initial damaged_folder)) ([] @ [splitext_root ''x.zip''])
                 then kind (disk s') ([] @ [splitext_root ''x.zip''])
                      = kind (disk (initial damaged_folder)) ([] @ [splitext_root ''x.zip''])
                 else isdir (disk s') ([] @ [splitext_root ''x.zip'']))"
    by blast
  from fs1 have fs1': "fs1 = Dir [(''x.zip'', Damaged [(''inner.zip'', Zip [(''f.txt'', Plain ''new'')])]
                                         [''tail.bin''] (BadCRC ''ta'')), (''x'', Dir [])]"
    by (simp add: stem2 initial_def damaged_folder_def exists_path_def)
  have ex: "extractall ([] @ [splitext_root ''x.zip''])
              [(''inner.zip'', Zip [(''f.txt'', Plain ''new'')])] (Some ([''tail.bin''], BadCRC ''ta'')) fs1
            = (disk damaged_unpacked, Some BadZipFile)"
    unfolding fs1' by (simp add: stem2 damaged_extract damaged_unpacked_def)
  from dam [OF _ ex] d
  have p: "process_item [] ''x.zip'' ([], initial damaged_folder) = ([], damaged_unpacked)"
    by (simp add: log_message_def initial_def damaged_unpacked_def)
  have l: "log damaged_unpacked = log (initial damaged_folder) @ [BadZipSkipping [''x.zip'']]"
    by (simp add: damaged_unpacked_def initial_def)
  from bad [OF p] l nx
  have second: "progress damaged_unpacked = progress (initial damaged_folder)
        \<and> isdir (disk damaged_unpacked) [''x'']"
    by (simp add: stem2)
  from h1 h2 h3 b first g1 g2 g3 d p l second show ?thesis by simp
qed

end
